theory Spec2Isabelle
  imports Main
begin

section \<open>JavaScript strings\<close>

text \<open>
  A JavaScript string is a sequence of code units. The model is \<^typ>\<open>string\<close>: a list of
  8-bit characters, read as the code units U+0000 to U+00FF. On that range the white space that
  \<^verbatim>\<open>String.prototype.trim\<close> and the class \<^verbatim>\<open>\s\<close> recognise is TAB, LF, VT, FF, CR, SPACE and
  NBSP, the digits of \<^verbatim>\<open>\d\<close> are 0 to 9, and \<^verbatim>\<open>toLowerCase\<close> moves A to Z and the Latin-1
  capitals (U+00C0 to U+00DE without the multiplication sign U+00D7) up by 32.
\<close>

definition code_unit :: "char \<Rightarrow> nat" where
  "code_unit c = of_char c"

definition is_space :: "char \<Rightarrow> bool" where
  "is_space c = (code_unit c \<in> {9, 10, 11, 12, 13, 32, 160})"

definition is_digit :: "char \<Rightarrow> bool" where
  "is_digit c = (48 \<le> code_unit c \<and> code_unit c \<le> 57)"

definition trim :: "string \<Rightarrow> string" where
  "trim s = rev (dropWhile is_space (rev (dropWhile is_space s)))"

definition lower_unit :: "char \<Rightarrow> char" where
  "lower_unit c =
     (let n = code_unit c
      in if (65 \<le> n \<and> n \<le> 90) \<or> (192 \<le> n \<and> n \<le> 222 \<and> n \<noteq> 215)
         then char_of (n + 32) else c)"

definition toLowerCase :: "string \<Rightarrow> string" where
  "toLowerCase s = map lower_unit s"

text \<open>\<^verbatim>\<open>s.padStart(n, p)\<close> for a one-character pad string \<open>p\<close>.\<close>

definition padStart :: "nat \<Rightarrow> char \<Rightarrow> string \<Rightarrow> string" where
  "padStart n p s = replicate (n - length s) p @ s"

text \<open>\<^verbatim>\<open>Number(s)\<close> on a string of decimal digits, the only strings the code converts.\<close>

definition Number :: "string \<Rightarrow> int" where
  "Number s = foldl (\<lambda>n c. 10 * n + (int (code_unit c) - 48)) 0 s"

text \<open>\<^verbatim>\<open>n.toString()\<close> on an integer.\<close>

fun decimal :: "nat \<Rightarrow> string" where
  "decimal n = (if n < 10 then [char_of (48 + n)] else decimal (n div 10) @ [char_of (48 + n mod 10)])"

declare decimal.simps [simp del]

definition toString :: "int \<Rightarrow> string" where
  "toString i = (if i < 0 then CHR ''-'' # decimal (nat (- i)) else decimal (nat i))"

section \<open>Regular expressions\<close>

text \<open>
  The patterns of the source use character classes, sequence, alternation and repetition, and
  are anchored at both ends (\<^verbatim>\<open>^...$\<close>, no flags), so \<^verbatim>\<open>test\<close> asks whether the whole string
  is in the pattern's language. \<open>test\<close> decides it by derivatives; \<open>lang\<close> is the language.
\<close>

datatype regex =
    Fail
  | Eps
  | Class "char \<Rightarrow> bool"
  | Alt regex regex
  | Seq regex regex
  | Star regex

definition conc :: "string set \<Rightarrow> string set \<Rightarrow> string set" where
  "conc A B = {u @ v | u v. u \<in> A \<and> v \<in> B}"

inductive_set star :: "string set \<Rightarrow> string set" for A :: "string set" where
  star_empty: "[] \<in> star A"
| star_more: "u \<in> A \<Longrightarrow> v \<in> star A \<Longrightarrow> u @ v \<in> star A"

fun lang :: "regex \<Rightarrow> string set" where
  "lang Fail = {}"
| "lang Eps = {[]}"
| "lang (Class p) = {[c] | c. p c}"
| "lang (Alt r s) = lang r \<union> lang s"
| "lang (Seq r s) = conc (lang r) (lang s)"
| "lang (Star r) = star (lang r)"

fun nullable :: "regex \<Rightarrow> bool" where
  "nullable Fail = False"
| "nullable Eps = True"
| "nullable (Class p) = False"
| "nullable (Alt r s) = (nullable r \<or> nullable s)"
| "nullable (Seq r s) = (nullable r \<and> nullable s)"
| "nullable (Star r) = True"

fun deriv :: "char \<Rightarrow> regex \<Rightarrow> regex" where
  "deriv c Fail = Fail"
| "deriv c Eps = Fail"
| "deriv c (Class p) = (if p c then Eps else Fail)"
| "deriv c (Alt r s) = Alt (deriv c r) (deriv c s)"
| "deriv c (Seq r s) =
     (if nullable r then Alt (Seq (deriv c r) s) (deriv c s) else Seq (deriv c r) s)"
| "deriv c (Star r) = Seq (deriv c r) (Star r)"

fun derivs :: "string \<Rightarrow> regex \<Rightarrow> regex" where
  "derivs [] r = r"
| "derivs (c # cs) r = derivs cs (deriv c r)"

definition test :: "regex \<Rightarrow> string \<Rightarrow> bool" where
  "test r s = nullable (derivs s r)"

text \<open>\<^verbatim>\<open>r+\<close>, \<^verbatim>\<open>r?\<close> and \<^verbatim>\<open>r{n}\<close>.\<close>

definition Plus :: "regex \<Rightarrow> regex" where
  "Plus r = Seq r (Star r)"

definition Opt :: "regex \<Rightarrow> regex" where
  "Opt r = Alt r Eps"

fun Times :: "nat \<Rightarrow> regex \<Rightarrow> regex" where
  "Times 0 r = Eps"
| "Times (Suc n) r = Seq r (Times n r)"

definition Chr :: "char \<Rightarrow> regex" where
  "Chr c = Class (\<lambda>d. d = c)"

section \<open>Event model: slug, date and time (src/database/event.model.ts)\<close>

text \<open>
  \<^verbatim>\<open>new Error(message)\<close>, thrown by the normalisers and handed to \<^verbatim>\<open>next\<close> by the hooks;
  \<open>ValidatorError path message\<close> is the failure of a schema validator of Mongoose on a path.
\<close>

datatype error =
    Error string
  | ValidatorError string string

subsection \<open>slugify\<close>

text \<open>The class \<^verbatim>\<open>[a-z0-9]\<close>.\<close>

definition is_lower_alnum :: "char \<Rightarrow> bool" where
  "is_lower_alnum c =
     (let n = code_unit c in (97 \<le> n \<and> n \<le> 122) \<or> (48 \<le> n \<and> n \<le> 57))"

text \<open>
  \<^verbatim>\<open>s.replace(/[C]+/g, r)\<close> for a character class \<open>C\<close> (here \<open>p\<close>): scanning from the left,
  a character of the class starts a match that greedily takes the whole run, the run is
  replaced by \<open>r\<close>, and the scan goes on after it.
\<close>

function replace_runs :: "(char \<Rightarrow> bool) \<Rightarrow> string \<Rightarrow> string \<Rightarrow> string" where
  "replace_runs p r [] = []"
| "replace_runs p r (c # cs) =
     (if p c then r @ replace_runs p r (dropWhile p cs) else c # replace_runs p r cs)"
  by pat_completeness auto
termination
  by (relation "measure (\<lambda>(p, r, s). length s)") (auto simp: length_dropWhile_le less_Suc_eq_le)

text \<open>
  \<^verbatim>\<open>s.replace(/^-+|-+$/g, '')\<close>: at the start of the string the first alternative removes the
  leading hyphens; at every later position only \<^verbatim>\<open>-+$\<close> can match, and it does when nothing
  but hyphens is left.
\<close>

definition is_hyphen :: "char \<Rightarrow> bool" where
  "is_hyphen c = (c = CHR ''-'')"

fun remove_final_hyphens :: "string \<Rightarrow> string" where
  "remove_final_hyphens [] = []"
| "remove_final_hyphens (c # cs) =
     (if list_all is_hyphen (c # cs) then [] else c # remove_final_hyphens cs)"

definition remove_edge_hyphens :: "string \<Rightarrow> string" where
  "remove_edge_hyphens s = remove_final_hyphens (dropWhile is_hyphen s)"

definition slugify :: "string \<Rightarrow> string" where
  "slugify title =
     remove_edge_hyphens
       (replace_runs (\<lambda>c. \<not> is_lower_alnum c) ''-'' (toLowerCase (trim title)))"

text \<open>
  The reference definition, in the words of the specification: lower-case the title, replace
  every run of one or more non-alphanumeric characters with a single hyphen, strip leading and
  trailing hyphens. Alphanumeric is a letter A to Z or a to z, or a digit.
\<close>

definition is_alphanumeric :: "char \<Rightarrow> bool" where
  "is_alphanumeric c =
     (let n = code_unit c
      in (65 \<le> n \<and> n \<le> 90) \<or> (97 \<le> n \<and> n \<le> 122) \<or> (48 \<le> n \<and> n \<le> 57))"

definition strip_hyphens :: "string \<Rightarrow> string" where
  "strip_hyphens s = rev (dropWhile is_hyphen (rev (dropWhile is_hyphen s)))"

definition slugify_reference :: "string \<Rightarrow> string" where
  "slugify_reference title =
     strip_hyphens (replace_runs (\<lambda>c. \<not> is_alphanumeric c) ''-'' (toLowerCase title))"

subsection \<open>Date: the host's parser and toISOString\<close>

text \<open>
  \<^verbatim>\<open>new Date(s)\<close> reads a string with the host's parser, which for every form but the ISO one
  is implementation-defined and reads a form without a zone in the host's local time. The
  parser is a parameter \<open>parse\<close>: the time value in milliseconds since the epoch, \<open>None\<close> for
  \<^verbatim>\<open>NaN\<close>. The constructor clips a time value beyond 8.64e15 ms to \<^verbatim>\<open>NaN\<close>.
\<close>

definition new_Date :: "(string \<Rightarrow> int option) \<Rightarrow> string \<Rightarrow> int option" where
  "new_Date parse s =
     (case parse s of
        None \<Rightarrow> None
      | Some tv \<Rightarrow> if \<bar>tv\<bar> \<le> 8640000000000000 then Some tv else None)"

text \<open>
  The built-ins of the language are given as ECMAScript defines them. The UTC calendar fields
  of a time value are those of the proleptic Gregorian calendar. \<open>civil\<close> takes the day number
  since the epoch to (year, month 1 to 12, day of the month), counting days from 1 March of
  year 0 through 400-year, 100-year, 4-year and 1-year cycles.
\<close>

definition msPerDay :: int where
  "msPerDay = 86400000"

definition Day :: "int \<Rightarrow> int" where
  "Day t = t div msPerDay"

definition civil :: "int \<Rightarrow> int \<times> int \<times> int" where
  "civil z =
     (let n = z + 719468;
          era = n div 146097;
          doe = n mod 146097;
          c = min (doe div 36524) 3;
          doc = doe - 36524 * c;
          q = doc div 1461;
          doq = doc mod 1461;
          a = min (doq div 365) 3;
          doy = doq - 365 * a;
          y = 400 * era + 100 * c + 4 * q + a;
          mp = (5 * doy + 2) div 153;
          d = doy - (153 * mp + 2) div 5 + 1;
          m = (if mp < 10 then mp + 3 else mp - 9)
      in (if m \<le> 2 then y + 1 else y, m, d))"

definition YearFromTime :: "int \<Rightarrow> int" where
  "YearFromTime t = fst (civil (Day t))"

text \<open>The month of ECMAScript counts from 0.\<close>

definition MonthFromTime :: "int \<Rightarrow> int" where
  "MonthFromTime t = fst (snd (civil (Day t))) - 1"

definition DateFromTime :: "int \<Rightarrow> int" where
  "DateFromTime t = snd (snd (civil (Day t)))"

definition HourFromTime :: "int \<Rightarrow> int" where
  "HourFromTime t = (t div 3600000) mod 24"

definition MinFromTime :: "int \<Rightarrow> int" where
  "MinFromTime t = (t div 60000) mod 60"

definition SecFromTime :: "int \<Rightarrow> int" where
  "SecFromTime t = (t div 1000) mod 60"

definition msFromTime :: "int \<Rightarrow> int" where
  "msFromTime t = t mod 1000"

definition pad :: "nat \<Rightarrow> int \<Rightarrow> string" where
  "pad n i = padStart n (CHR ''0'') (toString i)"

text \<open>
  \<^verbatim>\<open>Date.prototype.toISOString\<close>: \<^verbatim>\<open>YYYY-MM-DDTHH:mm:ss.sssZ\<close>, and for a year outside 0 to 9999
  the expanded year, a sign and six digits.
\<close>

definition iso_year :: "int \<Rightarrow> string" where
  "iso_year y =
     (if 0 \<le> y \<and> y \<le> 9999 then pad 4 y
      else (if y < 0 then CHR ''-'' else CHR ''+'') # pad 6 \<bar>y\<bar>)"

definition toISOString :: "int \<Rightarrow> string" where
  "toISOString t =
     iso_year (YearFromTime t) @ ''-'' @ pad 2 (MonthFromTime t + 1) @ ''-'' @
     pad 2 (DateFromTime t) @ ''T'' @ pad 2 (HourFromTime t) @ '':'' @ pad 2 (MinFromTime t) @
     '':'' @ pad 2 (SecFromTime t) @ ''.'' @ pad 3 (msFromTime t) @ ''Z''"

subsection \<open>normalizeDate\<close>

text \<open>\<^verbatim>\<open>/^\d{4}-\d{2}-\d{2}$/\<close>\<close>

definition isoDatePattern :: regex where
  "isoDatePattern =
     Seq (Times 4 (Class is_digit))
       (Seq (Chr (CHR ''-'')) (Seq (Times 2 (Class is_digit))
         (Seq (Chr (CHR ''-'')) (Times 2 (Class is_digit)))))"

definition quoted :: "string \<Rightarrow> string" where
  "quoted s = [CHR 0x22] @ s @ [CHR 0x22]"

definition normalizeDate :: "(string \<Rightarrow> int option) \<Rightarrow> string \<Rightarrow> error + string" where
  "normalizeDate parse v =
     (let trimmed = trim v
      in if trimmed = [] then Inl (Error ''Date is required and cannot be empty.'')
         else if test isoDatePattern trimmed then Inr trimmed
         else (case new_Date parse trimmed of
                 None \<Rightarrow> Inl (Error (''Invalid date format: '' @ quoted v @ ''.''))
               | Some parsed \<Rightarrow> Inr (take 10 (toISOString parsed))))"

subsection \<open>normalizeTime\<close>

text \<open>
  \<^verbatim>\<open>/^(\d{1,2}):(\d{2})$/\<close>. No digit is a colon, so on a match the first group is the text
  before the first colon and the second group the text after it.
\<close>

definition timePattern :: regex where
  "timePattern =
     Seq (Seq (Class is_digit) (Opt (Class is_digit)))
       (Seq (Chr (CHR '':'')) (Times 2 (Class is_digit)))"

definition timePattern_exec :: "string \<Rightarrow> (string \<times> string) option" where
  "timePattern_exec s =
     (if test timePattern s
      then Some (takeWhile (\<lambda>c. c \<noteq> CHR '':'') s, drop 1 (dropWhile (\<lambda>c. c \<noteq> CHR '':'') s))
      else None)"

text \<open>
  The groups hold digits only, so \<^verbatim>\<open>Number\<close> gives integers and the two
  \<^verbatim>\<open>Number.isInteger\<close> tests of the source never fail; the four comparisons are kept.
\<close>

definition normalizeTime :: "string \<Rightarrow> error + string" where
  "normalizeTime v =
     (let trimmed = trim v
      in if trimmed = [] then Inl (Error ''Time is required and cannot be empty.'')
         else (case timePattern_exec trimmed of
                 None \<Rightarrow> Inl (Error (''Invalid time format (expected HH:mm): '' @ quoted v @ ''.''))
               | Some (g1, g2) \<Rightarrow>
                   (let hours = Number g1; minutes = Number g2
                    in if hours < 0 \<or> hours > 23 \<or> minutes < 0 \<or> minutes > 59
                       then Inl (Error (''Invalid time value: '' @ quoted v @ ''.''))
                       else Inr (padStart 2 (CHR ''0'') (toString hours) @ '':'' @
                                 padStart 2 (CHR ''0'') (toString minutes)))))"

subsection \<open>Documents and the pre-save hook of the Event schema\<close>

text \<open>
  A Mongoose document is the object with the paths Mongoose has marked as modified (a path of a
  new document that was given a value, or a path that was set to a different value since the
  document was loaded); \<^verbatim>\<open>isModified\<close> reads the marks. The hook of the Event schema reads
  and writes four fields of the event, which is all the model keeps of it.
\<close>

record 'a document =
  obj :: 'a
  modifiedPaths :: "string set"

definition isModified :: "string \<Rightarrow> 'a document \<Rightarrow> bool" where
  "isModified path d = (path \<in> modifiedPaths d)"

record event =
  title :: string
  slug :: string
  date :: string
  time :: string

text \<open>
  The hook assigns to paths of the document. An assignment goes through Mongoose, which
  stores the value and keeps the marks: the path may become marked as modified. Whether it
  does is decided inside Mongoose, from the value, the value the path holds and what Mongoose
  knows of the document (whether it is new, what was loaded), and not by code of the
  repository. \<open>track path v d\<close> stands for the marks Mongoose leaves when \<open>v\<close> is assigned to
  \<open>path\<close> of the document \<open>d\<close>.
\<close>

type_synonym tracking = "string \<Rightarrow> string \<Rightarrow> event document \<Rightarrow> string set"

text \<open>
  The hook mutates the document and then calls \<^verbatim>\<open>next()\<close> or, from the \<^verbatim>\<open>catch\<close>,
  \<^verbatim>\<open>next(error)\<close>: the result is the document as the hook leaves it and the error handed to
  \<^verbatim>\<open>next\<close>, if any. An assignment made before a later step throws stays on the document,
  with its mark. \<^verbatim>\<open>isModified('title')\<close> is read before any assignment of the hook.
\<close>

definition eventSchema_pre_save ::
  "tracking \<Rightarrow> (string \<Rightarrow> int option) \<Rightarrow> event document \<Rightarrow> event document \<times> error option" where
  "eventSchema_pre_save track parse this =
     (let this1 = (if isModified ''title'' this
                   then this\<lparr>obj := (obj this)\<lparr>slug := slugify (title (obj this))\<rparr>,
                             modifiedPaths := track ''slug'' (slugify (title (obj this))) this\<rparr>
                   else this)
      in case normalizeDate parse (date (obj this1)) of
           Inl e \<Rightarrow> (this1, Some e)
         | Inr d \<Rightarrow>
             (let this2 = this1\<lparr>obj := (obj this1)\<lparr>date := d\<rparr>,
                                modifiedPaths := track ''date'' d this1\<rparr>
              in case normalizeTime (time (obj this2)) of
                   Inl e \<Rightarrow> (this2, Some e)
                 | Inr t \<Rightarrow> (this2\<lparr>obj := (obj this2)\<lparr>time := t\<rparr>,
                                    modifiedPaths := track ''time'' t this2\<rparr>, None)))"

text \<open>
  An instance of the tracking, for the example of the hook on a document loaded from the
  database: Mongoose marks a path that is not marked exactly when the assignment changes the
  value the path holds.
\<close>

definition path_value :: "string \<Rightarrow> event \<Rightarrow> string" where
  "path_value path e =
     (if path = ''title'' then title e else if path = ''slug'' then slug e
      else if path = ''date'' then date e else time e)"

definition mark_changed :: tracking where
  "mark_changed path v d =
     (if v = path_value path (obj d) then modifiedPaths d else insert path (modifiedPaths d))"

section \<open>Booking model (src/database/booking.model.ts)\<close>

subsection \<open>The email path\<close>

text \<open>\<^verbatim>\<open>/^[^\s@]+@[^\s@]+\.[^\s@]+$/\<close>\<close>

definition not_space_or_at :: "char \<Rightarrow> bool" where
  "not_space_or_at c = (\<not> is_space c \<and> c \<noteq> CHR ''@'')"

definition emailRegex :: regex where
  "emailRegex =
     Seq (Plus (Class not_space_or_at))
       (Seq (Chr (CHR ''@''))
         (Seq (Plus (Class not_space_or_at))
           (Seq (Chr (CHR ''.'')) (Plus (Class not_space_or_at)))))"

text \<open>
  The schema options of the path are \<^verbatim>\<open>required\<close>, \<^verbatim>\<open>trim\<close>, \<^verbatim>\<open>lowercase\<close> and the
  validator \<^verbatim>\<open>emailRegex.test\<close>. Mongoose runs the setters of \<^verbatim>\<open>trim\<close> and \<^verbatim>\<open>lowercase\<close>
  when the path is assigned, the last declared first, and the validators on the stored value
  when the document is validated: \<^verbatim>\<open>required\<close>, which refuses the empty string, then the
  validator of the schema.
\<close>

definition email_set :: "string \<Rightarrow> string" where
  "email_set raw = trim (toLowerCase raw)"

definition email_validate :: "string \<Rightarrow> error + string" where
  "email_validate v =
     (if v = [] then Inl (ValidatorError ''email'' (''Path '' @ [CHR 0x60] @ ''email'' @ [CHR 0x60] @ '' is required.''))
      else if \<not> test emailRegex v then Inl (ValidatorError ''email'' ''Invalid email address.'')
      else Inr v)"

definition booking_email :: "string \<Rightarrow> error + string" where
  "booking_email raw = email_validate (email_set raw)"

subsection \<open>The pre-save hook of the Booking schema\<close>

text \<open>
  Storage holds the identities of the stored events. \<^verbatim>\<open>EventModel.exists({ _id })\<close> resolves
  to whether an event of that identity is stored, or rejects with the driver's error when the
  query cannot be answered (\<open>fault\<close>).
\<close>

datatype failure =
    Thrown error
  | Rejected string

record booking =
  eventId :: nat
  email :: string

record storage =
  events :: "nat set"
  fault :: "string option"

definition EventModel_exists :: "storage \<Rightarrow> nat \<Rightarrow> string + bool" where
  "EventModel_exists st i = (case fault st of Some m \<Rightarrow> Inl m | None \<Rightarrow> Inr (i \<in> events st))"

text \<open>The hook hands \<^verbatim>\<open>next\<close> nothing, its own error, or the rejection it caught.\<close>

definition bookingSchema_pre_save :: "storage \<Rightarrow> booking document \<Rightarrow> failure option" where
  "bookingSchema_pre_save st this =
     (if \<not> isModified ''eventId'' this then None
      else (case EventModel_exists st (eventId (obj this)) of
              Inl m \<Rightarrow> Some (Rejected m)
            | Inr eventExists \<Rightarrow>
                if \<not> eventExists
                then Some (Thrown (Error ''Cannot create booking: referenced event does not exist.''))
                else None))"

section \<open>Connection manager (connectToDatabase)\<close>

text \<open>
  \<^verbatim>\<open>cached\<close> is the process-wide cache with its two slots. JavaScript runs one piece of code
  at a time, an \<^verbatim>\<open>async\<close> function gives way at \<^verbatim>\<open>await\<close>, and the code after an
  \<^verbatim>\<open>await\<close> never runs at once: it is a job that is queued when the awaited promise is
  settled (at the \<^verbatim>\<open>await\<close> itself when the promise is settled already) and that runs
  later, after the code that queued it has finished and after the jobs queued before it. Other
  code, and so other calls of \<^verbatim>\<open>connectToDatabase\<close>, may run in between. A run of the
  process is therefore a sequence of three kinds of steps. \<open>Call c\<close>: caller \<open>c\<close> invokes
  \<^verbatim>\<open>connectToDatabase\<close>, which runs up to its first \<^verbatim>\<open>return\<close> or up to its \<^verbatim>\<open>await\<close>.
  \<open>Settle p r\<close>: the promise \<open>p\<close> of a connection attempt is fulfilled (\<open>Inr\<close>) or rejected
  (\<open>Inl\<close>), which queues the continuations of the callers awaiting \<open>p\<close>, in the order of
  their \<^verbatim>\<open>await\<close>, and runs none of them. \<open>Continue\<close>: the first queued continuation runs,
  from the \<^verbatim>\<open>await\<close> to the end of the function.

  A promise is named by the number of the \<^verbatim>\<open>mongoose.connect\<close> call that made it, so
  \<open>connects\<close>, the count of those calls, is also the next name. \<open>outcome\<close> is \<open>None\<close> on a
  promise that is still pending; \<open>awaiting\<close> holds the callers suspended on a pending promise,
  with the promise each one awaits; \<open>jobs\<close> is the queue of continuations, each the caller and
  the settled promise it awaited; \<open>results\<close> lists, in order, what each finished call returned
  or threw.
\<close>

record MongooseCache =
  conn :: "nat option"
  promise :: "nat option"

record process =
  cached :: MongooseCache
  connects :: nat
  outcome :: "nat \<Rightarrow> (string + nat) option"
  awaiting :: "(nat \<times> nat) list"
  jobs :: "(nat \<times> nat) list"
  results :: "(nat \<times> (string + nat)) list"

definition initial :: process where
  "initial =
     \<lparr>cached = \<lparr>conn = None, promise = None\<rparr>, connects = 0, outcome = (\<lambda>p. None),
      awaiting = [], jobs = [], results = []\<rparr>"

text \<open>
  The code after \<^verbatim>\<open>await cached.promise\<close>: on fulfilment the value goes to \<^verbatim>\<open>cached.conn\<close>,
  which is returned; on rejection the \<^verbatim>\<open>catch\<close> clears \<^verbatim>\<open>cached.promise\<close>, whatever it
  holds by then, and rethrows.
\<close>

definition resume :: "string + nat \<Rightarrow> nat \<Rightarrow> process \<Rightarrow> process" where
  "resume r caller s =
     (case r of
        Inr m \<Rightarrow> s\<lparr>cached := (cached s)\<lparr>conn := Some m\<rparr>, results := results s @ [(caller, Inr m)]\<rparr>
      | Inl e \<Rightarrow> s\<lparr>cached := (cached s)\<lparr>promise := None\<rparr>, results := results s @ [(caller, Inl e)]\<rparr>)"

text \<open>\<^verbatim>\<open>cached.promise = mongoose.connect(MONGODB_URI, { bufferCommands: false })\<close>\<close>

definition start_attempt :: "process \<Rightarrow> process" where
  "start_attempt s =
     s\<lparr>cached := (cached s)\<lparr>promise := Some (connects s)\<rparr>, connects := Suc (connects s)\<rparr>"

text \<open>
  \<^verbatim>\<open>await p\<close> ends the caller's step in either case: the caller is suspended while \<open>p\<close> is
  pending, and on a promise already settled its continuation is queued behind the jobs that
  are waiting.
\<close>

definition await :: "nat \<Rightarrow> nat \<Rightarrow> process \<Rightarrow> process" where
  "await p caller s =
     (case outcome s p of
        None \<Rightarrow> s\<lparr>awaiting := awaiting s @ [(caller, p)]\<rparr>
      | Some r \<Rightarrow> s\<lparr>jobs := jobs s @ [(caller, p)]\<rparr>)"

definition connectToDatabase :: "nat \<Rightarrow> process \<Rightarrow> process" where
  "connectToDatabase caller s =
     (case conn (cached s) of
        Some m \<Rightarrow> s\<lparr>results := results s @ [(caller, Inr m)]\<rparr>
      | None \<Rightarrow>
          (case promise (cached s) of
             None \<Rightarrow> await (connects s) caller (start_attempt s)
           | Some p \<Rightarrow> await p caller s))"

definition pending :: "process \<Rightarrow> nat \<Rightarrow> bool" where
  "pending s p = (p < connects s \<and> outcome s p = None)"

text \<open>
  Settling a pending promise records its outcome and moves the callers that await it to the
  end of the queue of jobs; a promise settles once, and never before it is made.
\<close>

definition settle :: "nat \<Rightarrow> string + nat \<Rightarrow> process \<Rightarrow> process" where
  "settle p r s =
     (if pending s p
      then s\<lparr>outcome := (outcome s)(p := Some r),
             awaiting := filter (\<lambda>w. snd w \<noteq> p) (awaiting s),
             jobs := jobs s @ filter (\<lambda>w. snd w = p) (awaiting s)\<rparr>
      else s)"

text \<open>
  The first job of the queue runs: the caller resumes with the outcome of the promise it
  awaited. (A job is queued only for a settled promise, lemma \<open>reachable_inv\<close>.)
\<close>

definition continue :: "process \<Rightarrow> process" where
  "continue s =
     (case jobs s of
        [] \<Rightarrow> s
      | (caller, p) # js \<Rightarrow>
          (case outcome s p of
             None \<Rightarrow> s
           | Some r \<Rightarrow> resume r caller (s\<lparr>jobs := js\<rparr>)))"

datatype action =
    Call nat
  | Settle nat "string + nat"
  | Continue

fun step :: "action \<Rightarrow> process \<Rightarrow> process" where
  "step (Call c) s = connectToDatabase c s"
| "step (Settle p r) s = settle p r s"
| "step Continue s = continue s"

definition run :: "action list \<Rightarrow> process \<Rightarrow> process" where
  "run acts s = fold step acts s"

definition reachable :: "process \<Rightarrow> bool" where
  "reachable s = (\<exists>acts. s = run acts initial)"

section \<open>Auxiliary notions for the proofs\<close>

text \<open>
  Removing the characters of a class from the end of a string, by recursion from the left, and
  from both ends: \<open>trim\<close> is \<open>trim_by is_space\<close>, and removing the edge hyphens is
  \<open>trim_by is_hyphen\<close>.
\<close>

fun drop_end :: "(char \<Rightarrow> bool) \<Rightarrow> string \<Rightarrow> string" where
  "drop_end p [] = []"
| "drop_end p (c # cs) = (if list_all p (c # cs) then [] else c # drop_end p cs)"

definition trim_by :: "(char \<Rightarrow> bool) \<Rightarrow> string \<Rightarrow> string" where
  "trim_by p s = drop_end p (dropWhile p s)"

text \<open>
  The shape of a time of day in the words of the specification: an hour \<open>h\<close> of one or two
  digits and a minute \<open>m\<close> of exactly two digits.
\<close>

definition time_fields :: "string \<Rightarrow> string \<Rightarrow> bool" where
  "time_fields h m \<longleftrightarrow>
     (length h = 1 \<or> length h = 2) \<and> list_all is_digit h \<and> length m = 2 \<and> list_all is_digit m"

text \<open>
  A host whose local time is \<open>offset\<close> minutes ahead of UTC, on the one string the example of
  the specification needs: "May 1, 2024" names no zone, so the host reads it as midnight of
  1 May 2024 in local time (1714521600000 ms is that midnight in UTC).
\<close>

definition local_time_host :: "int \<Rightarrow> string \<Rightarrow> int option" where
  "local_time_host offset s =
     (if s = ''May 1, 2024'' then Some (1714521600000 - 60000 * offset) else None)"

text \<open>
  An invariant of the connection manager: no promise is settled before it is made; every
  queued continuation belongs to a settled promise and every suspended caller to a pending
  one; the promise in the slot was made by an earlier attempt.
\<close>

definition queue_inv :: "process \<Rightarrow> bool" where
  "queue_inv s \<longleftrightarrow>
     (\<forall>p. connects s \<le> p \<longrightarrow> outcome s p = None) \<and>
     (\<forall>w \<in> set (jobs s). outcome s (snd w) \<noteq> None) \<and>
     (\<forall>w \<in> set (awaiting s). pending s (snd w)) \<and>
     (\<forall>p. promise (cached s) = Some p \<longrightarrow> p < connects s)"

text \<open>
  ECMAScript defines the calendar fields of a time value through the day number of a year's
  first day, the length of the year, and a table from the day within the year to the month
  and the day of the month (\<open>leap_day\<close> is \<^verbatim>\<open>InLeapYear\<close>, \<open>month_of_day\<close> the table of
  \<^verbatim>\<open>MonthFromTime\<close> and \<open>date_of_day\<close> the table of \<^verbatim>\<open>DateFromTime\<close>). They are stated here
  to show that \<open>civil\<close> computes the same fields.
\<close>

definition DayFromYear :: "int \<Rightarrow> int" where
  "DayFromYear y = 365 * (y - 1970) + (y - 1969) div 4 - (y - 1901) div 100 + (y - 1601) div 400"

definition leap_day :: "int \<Rightarrow> int" where
  "leap_day y = (if y mod 4 \<noteq> 0 then 0 else if y mod 100 \<noteq> 0 then 1 else if y mod 400 \<noteq> 0 then 0 else 1)"

definition month_of_day :: "int \<Rightarrow> int \<Rightarrow> int" where
  "month_of_day l d =
     (if d < 31 then 0 else if d < 59 + l then 1 else if d < 90 + l then 2
      else if d < 120 + l then 3 else if d < 151 + l then 4 else if d < 181 + l then 5
      else if d < 212 + l then 6 else if d < 243 + l then 7 else if d < 273 + l then 8
      else if d < 304 + l then 9 else if d < 334 + l then 10 else 11)"

definition date_of_day :: "int \<Rightarrow> int \<Rightarrow> int" where
  "date_of_day l d =
     (let m = month_of_day l d
      in if m = 0 then d + 1 else if m = 1 then d - 30 else if m = 2 then d - 58 - l
         else if m = 3 then d - 89 - l else if m = 4 then d - 119 - l
         else if m = 5 then d - 150 - l else if m = 6 then d - 180 - l
         else if m = 7 then d - 211 - l else if m = 8 then d - 242 - l
         else if m = 9 then d - 272 - l else if m = 10 then d - 303 - l else d - 333 - l)"

text \<open>The days from 1 March of year 0 to 1 March of year \<open>y\<close>.\<close>

definition march_first :: "int \<Rightarrow> int" where
  "march_first y = 365 * y + y div 4 - y div 100 + y div 400"

section \<open>The matcher decides the language\<close>

lemma conc_nil_iff: "[] \<in> conc A B \<longleftrightarrow> [] \<in> A \<and> [] \<in> B"
  by (auto simp: conc_def)

lemma conc_cons_iff:
  "c # w \<in> conc A B \<longleftrightarrow>
     ([] \<in> A \<and> c # w \<in> B) \<or> (\<exists>u v. w = u @ v \<and> c # u \<in> A \<and> v \<in> B)"
proof
  assume "c # w \<in> conc A B"
  then obtain x y where xy: "c # w = x @ y" "x \<in> A" "y \<in> B"
    by (auto simp: conc_def)
  show "([] \<in> A \<and> c # w \<in> B) \<or> (\<exists>u v. w = u @ v \<and> c # u \<in> A \<and> v \<in> B)"
  proof (cases x)
    case Nil
    with xy show ?thesis by simp
  next
    case (Cons a x')
    with xy have "w = x' @ y" "c # x' \<in> A" by auto
    with xy show ?thesis by blast
  qed
next
  assume r: "([] \<in> A \<and> c # w \<in> B) \<or> (\<exists>u v. w = u @ v \<and> c # u \<in> A \<and> v \<in> B)"
  then show "c # w \<in> conc A B"
  proof
    assume "[] \<in> A \<and> c # w \<in> B"
    then have "[] @ (c # w) \<in> conc A B" unfolding conc_def by blast
    then show ?thesis by simp
  next
    assume "\<exists>u v. w = u @ v \<and> c # u \<in> A \<and> v \<in> B"
    then obtain u v where "w = u @ v" "c # u \<in> A" "v \<in> B" by blast
    then have "(c # u) @ v \<in> conc A B" unfolding conc_def by blast
    with \<open>w = u @ v\<close> show ?thesis by simp
  qed
qed

lemma star_cons_iff:
  "c # w \<in> star A \<longleftrightarrow> (\<exists>u v. w = u @ v \<and> c # u \<in> A \<and> v \<in> star A)"
proof
  assume "c # w \<in> star A"
  then show "\<exists>u v. w = u @ v \<and> c # u \<in> A \<and> v \<in> star A"
  proof (induction "c # w" rule: star.induct)
    case (star_more u v)
    show ?case
    proof (cases u)
      case Nil
      with star_more show ?thesis by simp
    next
      case (Cons a u')
      with star_more show ?thesis by auto
    qed
  qed
next
  assume "\<exists>u v. w = u @ v \<and> c # u \<in> A \<and> v \<in> star A"
  then obtain u v where "w = u @ v" "c # u \<in> A" "v \<in> star A" by blast
  then have "(c # u) @ v \<in> star A" by (intro star_more)
  with \<open>w = u @ v\<close> show "c # w \<in> star A" by simp
qed

lemma nullable_lang: "nullable r \<longleftrightarrow> [] \<in> lang r"
  by (induction r) (auto simp: conc_nil_iff star_empty)

lemma lang_deriv: "w \<in> lang (deriv c r) \<longleftrightarrow> c # w \<in> lang r"
proof (induction r arbitrary: w)
  case (Seq r s)
  then show ?case
    by (auto simp: conc_cons_iff nullable_lang) (auto simp: conc_def)
next
  case (Star r)
  then show ?case
    by (auto simp: star_cons_iff conc_def)
qed auto

lemma lang_derivs: "w \<in> lang (derivs s r) \<longleftrightarrow> s @ w \<in> lang r"
  by (induction s arbitrary: r) (auto simp: lang_deriv)

lemma test_lang: "test r s \<longleftrightarrow> s \<in> lang r"
  by (simp add: test_def nullable_lang lang_derivs)

lemma conc_iff: "s \<in> conc A B \<longleftrightarrow> (\<exists>u v. s = u @ v \<and> u \<in> A \<and> v \<in> B)"
  by (auto simp: conc_def)

lemma lang_Chr: "lang (Chr c) = {[c]}"
  by (auto simp: Chr_def)

lemma conc_Class_iff:
  "s \<in> conc {[c] | c. p c} B \<longleftrightarrow> (\<exists>c t. s = c # t \<and> p c \<and> t \<in> B)"
proof
  assume "s \<in> conc {[c] | c. p c} B"
  then obtain u v where "s = u @ v" "u \<in> {[c] | c. p c}" "v \<in> B" by (auto simp: conc_def)
  then show "\<exists>c t. s = c # t \<and> p c \<and> t \<in> B" by auto
next
  assume "\<exists>c t. s = c # t \<and> p c \<and> t \<in> B"
  then obtain c t where "s = [c] @ t" "p c" "t \<in> B" by auto
  then show "s \<in> conc {[c] | c. p c} B" unfolding conc_def by blast
qed

lemma lang_Times_Class: "s \<in> lang (Times n (Class p)) \<longleftrightarrow> length s = n \<and> list_all p s"
proof (induction n arbitrary: s)
  case 0
  show ?case by auto
next
  case (Suc n)
  show ?case by (cases s) (auto simp: conc_Class_iff Suc)
qed

lemma star_Class: "s \<in> star {[c] | c. p c} \<longleftrightarrow> list_all p s"
proof (induction s)
  case Nil
  show ?case by (simp add: star_empty)
next
  case (Cons c cs)
  have "c # cs \<in> star {[c] | c. p c} \<longleftrightarrow> p c \<and> cs \<in> star {[c] | c. p c}"
    unfolding star_cons_iff [of c cs] by auto
  with Cons show ?case by simp
qed

lemma lang_Plus_Class: "s \<in> lang (Plus (Class p)) \<longleftrightarrow> s \<noteq> [] \<and> list_all p s"
  by (cases s) (auto simp: Plus_def conc_Class_iff star_Class)

lemma test_isoDatePattern:
  "test isoDatePattern s \<longleftrightarrow>
     (\<exists>y m d. s = y @ ''-'' @ m @ ''-'' @ d \<and>
        length y = 4 \<and> list_all is_digit y \<and> length m = 2 \<and> list_all is_digit m \<and>
        length d = 2 \<and> list_all is_digit d)"
  unfolding test_lang isoDatePattern_def
  by (simp add: conc_iff lang_Times_Class lang_Chr del: Times.simps) blast

lemma lang_digit_Opt:
  "s \<in> lang (Seq (Class p) (Opt (Class p))) \<longleftrightarrow> (length s = 1 \<or> length s = 2) \<and> list_all p s"
proof (cases s)
  case Nil
  then show ?thesis by (auto simp: conc_Class_iff)
next
  case (Cons a t)
  show ?thesis
  proof (cases t)
    case Nil
    with Cons show ?thesis by (auto simp: conc_Class_iff Opt_def)
  next
    case (Cons b u)
    with \<open>s = a # t\<close> show ?thesis by (cases u) (auto simp: conc_Class_iff Opt_def)
  qed
qed

lemma test_timePattern:
  "test timePattern s \<longleftrightarrow>
     (\<exists>h m. s = h @ '':'' @ m \<and> (length h = 1 \<or> length h = 2) \<and> list_all is_digit h \<and>
        length m = 2 \<and> list_all is_digit m)"
proof -
  have "test timePattern s \<longleftrightarrow>
     (\<exists>h r. s = h @ r \<and> h \<in> lang (Seq (Class is_digit) (Opt (Class is_digit))) \<and>
        (\<exists>m. r = '':'' @ m \<and> m \<in> lang (Times 2 (Class is_digit))))"
    unfolding test_lang timePattern_def
    by (simp add: conc_iff lang_Chr del: Times.simps lang.simps(3,4))
  then show ?thesis
    unfolding lang_digit_Opt lang_Times_Class by auto
qed

section \<open>Properties of slugify\<close>

lemma drop_end_append_last: "drop_end p (s @ [c]) = (if p c then drop_end p s else s @ [c])"
  by (induction s) (auto simp: list_all_iff)

lemma drop_end_rev: "drop_end p s = rev (dropWhile p (rev s))"
  by (induction s rule: rev_induct) (auto simp: drop_end_append_last)

lemma remove_final_hyphens_drop_end: "remove_final_hyphens s = drop_end is_hyphen s"
  by (induction s) auto

lemma trim_trim_by: "trim s = trim_by is_space s"
  by (simp add: trim_def trim_by_def drop_end_rev)

lemma strip_hyphens_trim_by: "strip_hyphens s = trim_by is_hyphen s"
  by (simp add: strip_hyphens_def trim_by_def drop_end_rev)

lemma remove_edge_hyphens_trim_by: "remove_edge_hyphens s = trim_by is_hyphen s"
  by (simp add: remove_edge_hyphens_def trim_by_def remove_final_hyphens_drop_end)

lemma dropWhile_all: "\<forall>c\<in>set s. p c \<Longrightarrow> dropWhile p s = []"
  by simp

lemma dropWhile_weaker:
  assumes "\<And>c. q c \<Longrightarrow> p c"
  shows "dropWhile p (dropWhile q s) = dropWhile p s"
  using assms by (induction s) auto

lemma list_all_drop_end:
  assumes "\<And>c. q c \<Longrightarrow> p c"
  shows "list_all p (drop_end q s) = list_all p s"
  using assms by (induction s) (auto simp: list_all_iff)

lemma drop_end_weaker:
  assumes "\<And>c. q c \<Longrightarrow> p c"
  shows "drop_end p (drop_end q s) = drop_end p s"
proof (induction s)
  case Nil
  show ?case by simp
next
  case (Cons c cs)
  have "list_all p (drop_end q cs) = list_all p cs"
    using assms by (rule list_all_drop_end)
  moreover have "list_all q (c # cs) \<Longrightarrow> list_all p (c # cs)"
    using assms by (auto simp: list_all_iff)
  ultimately show ?case using Cons by auto
qed

lemma dropWhile_drop_end:
  assumes "\<And>c. q c \<Longrightarrow> p c"
  shows "dropWhile p (drop_end q s) = drop_end q (dropWhile p s)"
proof (induction s)
  case Nil
  show ?case by simp
next
  case (Cons c cs)
  have "list_all q (c # cs) \<Longrightarrow> list_all p (c # cs)"
    using assms by (auto simp: list_all_iff)
  with Cons show ?case by (auto simp: list_all_iff dropWhile_all)
qed

lemma trim_by_weaker:
  assumes "\<And>c. q c \<Longrightarrow> p c"
  shows "trim_by p (trim_by q s) = trim_by p s"
proof -
  have "trim_by p (trim_by q s) = drop_end p (drop_end q (dropWhile p (dropWhile q s)))"
    by (simp add: trim_by_def dropWhile_drop_end [OF assms])
  also have "\<dots> = drop_end p (dropWhile p s)"
    by (simp add: dropWhile_weaker [OF assms] drop_end_weaker [OF assms])
  finally show ?thesis by (simp add: trim_by_def)
qed

lemma trim_by_none:
  assumes "\<And>c. c \<in> set s \<Longrightarrow> \<not> p c"
  shows "trim_by p s = s"
proof -
  have "drop_end p s = s" using assms by (induction s) auto
  moreover have "dropWhile p s = s" using assms by (cases s) auto
  ultimately show ?thesis by (simp add: trim_by_def)
qed

lemma trim_by_map:
  assumes "\<And>c. p (f c) = p c"
  shows "trim_by p (map f s) = map f (trim_by p s)"
proof -
  have d: "dropWhile p (map f t) = map f (dropWhile p t)" for t
    using assms by (induction t) auto
  have e: "drop_end p (map f t) = map f (drop_end p t)" for t
    using assms by (induction t) (auto simp: list_all_iff)
  show ?thesis by (simp add: trim_by_def d e)
qed

lemma replace_runs_start:
  "s = [] \<or> \<not> p (hd s) \<Longrightarrow> p (CHR ''-'') \<Longrightarrow> dropWhile is_hyphen (replace_runs p ''-'' s) = replace_runs p ''-'' s"
  by (cases s) (auto simp: is_hyphen_def)

lemma dropWhile_start: "dropWhile p s = [] \<or> \<not> p (hd (dropWhile p s))"
  using hd_dropWhile by blast

lemma dropWhile_replace_runs:
  assumes "p (CHR ''-'')"
  shows "dropWhile is_hyphen (replace_runs p ''-'' s) = replace_runs p ''-'' (dropWhile p s)"
proof (cases s)
  case Nil
  then show ?thesis by simp
next
  case (Cons c cs)
  show ?thesis
  proof (cases "p c")
    case True
    have "dropWhile is_hyphen (replace_runs p ''-'' (dropWhile p cs)) = replace_runs p ''-'' (dropWhile p cs)"
      using dropWhile_start assms by (rule replace_runs_start)
    with True Cons show ?thesis by (simp add: is_hyphen_def)
  next
    case False
    with Cons assms show ?thesis by (auto simp: is_hyphen_def)
  qed
qed

lemma replace_runs_Nil_iff: "replace_runs p ''-'' s = [] \<longleftrightarrow> s = []"
  by (cases s) auto

lemma all_hyphens_replace_runs:
  assumes "p (CHR ''-'')" "s = [] \<or> \<not> p (hd s)"
  shows "list_all is_hyphen (replace_runs p ''-'' s) \<longleftrightarrow> s = []"
  using assms by (cases s) (auto simp: is_hyphen_def)

lemma drop_end_replace_runs:
  assumes "p (CHR ''-'')"
  shows "drop_end is_hyphen (replace_runs p ''-'' s) = replace_runs p ''-'' (drop_end p s)"
  using assms
proof (induction p "''-''" s rule: replace_runs.induct)
  case (1 p)
  show ?case by simp
next
  case (2 p c cs)
  note hy = \<open>p (CHR ''-'')\<close>
  show ?case
  proof (cases "p c")
    case True
    let ?dw = "dropWhile p cs"
    have ih: "drop_end is_hyphen (replace_runs p ''-'' ?dw) = replace_runs p ''-'' (drop_end p ?dw)"
      using "2.hyps"(1) True hy by simp
    show ?thesis
    proof (cases "?dw = []")
      case e: True
      then have "list_all p (c # cs)" using True by (simp add: dropWhile_eq_Nil_conv list_all_iff)
      with e True show ?thesis by (simp add: is_hyphen_def dropWhile_all del: dropWhile_eq_Nil_conv)
    next
      case ne: False
      then have nall: "\<not> list_all p (c # cs)" by (auto simp: dropWhile_eq_Nil_conv list_all_iff)
      have "\<not> list_all is_hyphen (replace_runs p ''-'' ?dw)"
        using all_hyphens_replace_runs [of p ?dw] hy dropWhile_start [of p cs] ne by blast
      then have "drop_end is_hyphen (replace_runs p ''-'' (c # cs)) =
                 CHR ''-'' # drop_end is_hyphen (replace_runs p ''-'' ?dw)"
        using True by simp
      also have "\<dots> = CHR ''-'' # replace_runs p ''-'' (dropWhile p (drop_end p cs))"
        by (simp add: ih dropWhile_drop_end)
      also have "\<dots> = replace_runs p ''-'' (drop_end p (c # cs))"
        using True nall by simp
      finally show ?thesis .
    qed
  next
    case False
    with 2 show ?thesis by (auto simp: is_hyphen_def)
  qed
qed

lemma trim_by_replace_runs:
  assumes "p (CHR ''-'')"
  shows "trim_by is_hyphen (replace_runs p ''-'' s) = replace_runs p ''-'' (trim_by p s)"
  using assms by (simp add: trim_by_def dropWhile_replace_runs drop_end_replace_runs)

lemma replace_runs_idem:
  "replace_runs p ''-'' (replace_runs p ''-'' s) = replace_runs p ''-'' s"
proof (induction p "''-''" s rule: replace_runs.induct)
  case (1 p)
  show ?case by simp
next
  case (2 p c cs)
  show ?case
  proof (cases "p c")
    case True
    let ?t = "replace_runs p ''-'' (dropWhile p cs)"
    have "dropWhile p ?t = ?t"
    proof (cases "dropWhile p cs")
      case Nil
      then show ?thesis by (simp del: dropWhile_eq_Nil_conv)
    next
      case (Cons d ds)
      then have "\<not> p d" using hd_dropWhile [of p cs] by auto
      with Cons show ?thesis by simp
    qed
    with 2 True show ?thesis by simp
  next
    case False
    with 2 show ?thesis by simp
  qed
qed

lemma set_replace_runs: "c \<in> set (replace_runs p ''-'' s) \<Longrightarrow> c = CHR ''-'' \<or> (\<not> p c \<and> c \<in> set s)"
proof (induction p "''-''" s rule: replace_runs.induct)
  case (1 p)
  then show ?case by simp
next
  case (2 p d ds)
  then show ?case by (auto split: if_splits dest: set_dropWhileD)
qed

lemma replace_runs_cong:
  assumes "\<And>c. c \<in> set s \<Longrightarrow> p c = q c"
  shows "replace_runs p r s = replace_runs q r s"
  using assms
proof (induction p r s rule: replace_runs.induct)
  case (1 p r)
  show ?case by simp
next
  case (2 p r c cs)
  have dw: "dropWhile p cs = dropWhile q cs"
    using 2(3) by (intro dropWhile_cong) auto
  show ?case
  proof (cases "p c")
    case True
    then have "q c" using 2(3) by auto
    moreover have "replace_runs p r (dropWhile p cs) = replace_runs q r (dropWhile p cs)"
      using 2(1) [OF True] 2(3) by (auto dest: set_dropWhileD)
    ultimately show ?thesis using True dw by simp
  next
    case False
    then have "\<not> q c" using 2(3) by auto
    moreover have "replace_runs p r cs = replace_runs q r cs"
      using 2(2) [OF False] 2(3) by auto
    ultimately show ?thesis using False by simp
  qed
qed


lemma code_unit_lower_unit:
  "code_unit (lower_unit c) =
     (if (65 \<le> code_unit c \<and> code_unit c \<le> 90) \<or>
         (192 \<le> code_unit c \<and> code_unit c \<le> 222 \<and> code_unit c \<noteq> 215)
      then code_unit c + 32 else code_unit c)"
  by (auto simp: lower_unit_def code_unit_def Let_def)

lemma is_space_lower_unit: "is_space (lower_unit c) = is_space c"
  by (auto simp: is_space_def code_unit_lower_unit)

lemma is_space_not_alnum: "is_space c \<Longrightarrow> \<not> is_lower_alnum c"
  by (auto simp: is_space_def is_lower_alnum_def Let_def)

lemma hyphen_not_alnum: "\<not> is_lower_alnum (CHR ''-'')"
  by (simp add: is_lower_alnum_def code_unit_def)

lemma hyphen_not_space: "\<not> is_space (CHR ''-'')"
  by (simp add: is_space_def code_unit_def)

lemma alphanumeric_lower_unit: "is_alphanumeric (lower_unit c) = is_lower_alnum (lower_unit c)"
  by (auto simp: is_alphanumeric_def is_lower_alnum_def Let_def code_unit_lower_unit)

lemma lower_unit_alnum: "is_lower_alnum c \<Longrightarrow> lower_unit c = c"
  by (auto simp: lower_unit_def is_lower_alnum_def Let_def)

lemma lower_unit_hyphen: "lower_unit (CHR ''-'') = CHR ''-''"
  by (simp add: lower_unit_def code_unit_def)

lemma toLowerCase_trim_by:
  "toLowerCase (trim_by is_space s) = trim_by is_space (toLowerCase s)"
  by (simp add: toLowerCase_def trim_by_map is_space_lower_unit)

lemma toLowerCase_trim: "toLowerCase (trim s) = trim (toLowerCase s)"
  by (simp add: trim_trim_by toLowerCase_trim_by)

lemma slugify_trimmed:
  "slugify t = replace_runs (\<lambda>c. \<not> is_lower_alnum c) ''-''
     (trim_by (\<lambda>c. \<not> is_lower_alnum c) (toLowerCase t))"
proof -
  let ?p = "\<lambda>c. \<not> is_lower_alnum c"
  have "slugify t = replace_runs ?p ''-'' (trim_by ?p (trim_by is_space (toLowerCase t)))"
    by (simp add: slugify_def remove_edge_hyphens_trim_by trim_by_replace_runs hyphen_not_alnum
        toLowerCase_trim_by trim_trim_by)
  then show ?thesis
    by (simp add: trim_by_weaker is_space_not_alnum)
qed

lemma slugify_reference_trimmed:
  "slugify_reference t = replace_runs (\<lambda>c. \<not> is_lower_alnum c) ''-''
     (trim_by (\<lambda>c. \<not> is_lower_alnum c) (toLowerCase t))"
proof -
  let ?p = "\<lambda>c. \<not> is_lower_alnum c"
  have "replace_runs (\<lambda>c. \<not> is_alphanumeric c) ''-'' (toLowerCase t) =
        replace_runs ?p ''-'' (toLowerCase t)"
    by (rule replace_runs_cong) (auto simp: toLowerCase_def alphanumeric_lower_unit)
  then show ?thesis
    by (simp add: slugify_reference_def strip_hyphens_trim_by trim_by_replace_runs hyphen_not_alnum)
qed

text \<open>
  Claim C3. For every title, \<open>slugify\<close> gives what the reference definition gives: the title
  lower-cased, every run of one or more non-alphanumeric characters replaced by a single
  hyphen, and the leading and trailing hyphens removed. The trimming that the code does first
  changes nothing, since white space at either end becomes a hyphen that is removed. The
  result is a function of the title alone.
\<close>

theorem slugify_refines_reference: "slugify t = slugify_reference t"
proof -
  let ?p = "\<lambda>c. \<not> is_lower_alnum c"
  have "slugify t = replace_runs ?p ''-'' (trim_by ?p (toLowerCase t))"
    by (rule slugify_trimmed)
  also have "\<dots> = slugify_reference t"
    by (rule slugify_reference_trimmed [symmetric])
  finally show ?thesis .
qed

lemma slugify_chars:
  assumes "c \<in> set (slugify t)"
  shows "is_lower_alnum c \<or> c = CHR ''-''"
  using assms unfolding slugify_trimmed by (auto dest: set_replace_runs)

lemma slugify_fixed:
  assumes chars: "\<And>c. c \<in> set y \<Longrightarrow> is_lower_alnum c \<or> c = CHR ''-''"
    and runs: "replace_runs (\<lambda>c. \<not> is_lower_alnum c) ''-'' y = y"
    and ends: "trim_by is_hyphen y = y"
  shows "slugify y = y"
proof -
  have "trim y = y"
    unfolding trim_trim_by
    using chars is_space_not_alnum hyphen_not_space by (intro trim_by_none) auto
  moreover have "toLowerCase y = y"
    unfolding toLowerCase_def
    using chars lower_unit_alnum lower_unit_hyphen by (intro map_idI) auto
  ultimately show ?thesis
    by (simp add: slugify_def runs remove_edge_hyphens_trim_by ends)
qed

text \<open>
  Claim C5. For every title \<open>t\<close>, \<open>slugify (slugify t) = slugify t\<close>.
\<close>

theorem slugify_idempotent: "slugify (slugify t) = slugify t"
proof (rule slugify_fixed)
  fix c
  assume "c \<in> set (slugify t)"
  then show "is_lower_alnum c \<or> c = CHR ''-''" by (rule slugify_chars)
next
  show "replace_runs (\<lambda>c. \<not> is_lower_alnum c) ''-'' (slugify t) = slugify t"
    by (simp add: slugify_trimmed replace_runs_idem)
next
  have "trim_by is_hyphen (slugify t) = trim_by is_hyphen (trim_by is_hyphen
      (replace_runs (\<lambda>c. \<not> is_lower_alnum c) ''-'' (toLowerCase (trim t))))"
    by (simp add: slugify_def remove_edge_hyphens_trim_by)
  also have "\<dots> = slugify t"
    by (simp add: trim_by_weaker slugify_def remove_edge_hyphens_trim_by)
  finally show "trim_by is_hyphen (slugify t) = slugify t" .
qed

lemma trim_slugify: "trim (slugify t) = slugify t"
  unfolding trim_trim_by
  using slugify_chars is_space_not_alnum hyphen_not_space by (intro trim_by_none) blast

lemma replace_runs_apart:
  assumes "p (CHR ''-'')"
  shows "successively (\<lambda>a b. \<not> (a = CHR ''-'' \<and> b = CHR ''-'')) (replace_runs p ''-'' s)"
  using assms
proof (induction p "''-''" s rule: replace_runs.induct)
  case (1 p)
  show ?case by simp
next
  case (2 p c cs)
  note hy = \<open>p (CHR ''-'')\<close>
  let ?P = "\<lambda>a b. \<not> (a = CHR ''-'' \<and> b = CHR ''-'')"
  show ?case
  proof (cases "p c")
    case False
    with hy have "c \<noteq> CHR ''-''" by auto
    moreover from "2.hyps"(2) False hy have "successively ?P (replace_runs p ''-'' cs)" by simp
    ultimately have "successively ?P (c # replace_runs p ''-'' cs)"
      by (simp add: successively_Cons)
    with False show ?thesis by simp
  next
    case True
    let ?t = "replace_runs p ''-'' (dropWhile p cs)"
    from "2.hyps"(1) True hy have ih: "successively ?P ?t" by simp
    have "?t = [] \<or> hd ?t \<noteq> CHR ''-''"
    proof (cases "dropWhile p cs")
      case Nil
      then show ?thesis by (simp del: dropWhile_eq_Nil_conv)
    next
      case (Cons d ds)
      then have "\<not> p d" using hd_dropWhile [of p cs] by auto
      with hy have "d \<noteq> CHR ''-''" by auto
      with Cons \<open>\<not> p d\<close> show ?thesis by simp
    qed
    with ih have "successively ?P (CHR ''-'' # ?t)" by (simp add: successively_Cons)
    with True show ?thesis by simp
  qed
qed

lemma successively_trim_by:
  assumes "successively P s"
  shows "successively P (trim_by p s)"
proof -
  have "successively P (takeWhile p s @ dropWhile p s)" using assms by simp
  then have d: "successively P (dropWhile p s)" unfolding successively_append_iff by simp
  let ?x = "rev (dropWhile p s)"
  have "successively (\<lambda>a b. P b a) (takeWhile p ?x @ dropWhile p ?x)" using d by simp
  then have "successively (\<lambda>a b. P b a) (dropWhile p ?x)" unfolding successively_append_iff by simp
  then show ?thesis by (simp add: trim_by_def drop_end_rev)
qed

lemma trim_by_ends:
  assumes "trim_by p s \<noteq> []"
  shows "\<not> p (hd (trim_by p s))" and "\<not> p (last (trim_by p s))"
proof -
  let ?d = "dropWhile p s"
  have d: "?d \<noteq> []"
  proof
    assume "?d = []"
    then have "trim_by p s = []" by (simp only: trim_by_def drop_end.simps)
    with assms show False by simp
  qed
  then have h: "\<not> p (hd ?d)" by (rule hd_dropWhile)
  from d obtain c cs where c: "?d = c # cs" by (cases ?d) auto
  with h have "\<not> list_all p (c # cs)" by simp
  with c have "trim_by p s = c # drop_end p cs" by (simp add: trim_by_def)
  with h c show "\<not> p (hd (trim_by p s))" by simp
  let ?e = "dropWhile p (rev ?d)"
  from assms have e: "?e \<noteq> []" by (simp add: trim_by_def drop_end_rev)
  then have "\<not> p (hd ?e)" by (rule hd_dropWhile)
  with e show "\<not> p (last (trim_by p s))" by (simp add: trim_by_def drop_end_rev last_rev)
qed

text \<open>
  The slug is safe in a URL path: it holds only the letters a to z, the digits and hyphens, no
  two hyphens stand side by side, and it neither starts nor ends with a hyphen.
\<close>

theorem slugify_shape:
  "list_all (\<lambda>c. is_lower_alnum c \<or> c = CHR ''-'') (slugify t) \<and>
   successively (\<lambda>a b. \<not> (a = CHR ''-'' \<and> b = CHR ''-'')) (slugify t) \<and>
   (slugify t = [] \<or> (hd (slugify t) \<noteq> CHR ''-'' \<and> last (slugify t) \<noteq> CHR ''-''))"
proof -
  have a: "list_all (\<lambda>c. is_lower_alnum c \<or> c = CHR ''-'') (slugify t)"
    using slugify_chars [of _ t] by (auto simp: list_all_iff)
  have s: "slugify t = trim_by is_hyphen (replace_runs (\<lambda>c. \<not> is_lower_alnum c) ''-'' (toLowerCase (trim t)))"
    by (simp add: slugify_def remove_edge_hyphens_trim_by)
  have b: "successively (\<lambda>a b. \<not> (a = CHR ''-'' \<and> b = CHR ''-'')) (slugify t)"
    unfolding s by (intro successively_trim_by replace_runs_apart hyphen_not_alnum)
  have c: "slugify t = [] \<or> (hd (slugify t) \<noteq> CHR ''-'' \<and> last (slugify t) \<noteq> CHR ''-'')"
    unfolding s using trim_by_ends [of is_hyphen] by (auto simp: is_hyphen_def)
  from a b c show ?thesis by simp
qed

section \<open>Properties of normalizeTime\<close>

lemma char_of_code_unit: "char_of (code_unit c) = c"
  by (simp add: code_unit_def)

lemma char_of_48: "char_of (48 :: nat) = CHR ''0''"
  by code_simp

lemma digit_not_colon: "is_digit c \<Longrightarrow> c \<noteq> CHR '':''"
  by (auto simp: is_digit_def code_unit_def)

lemma digit_char: "is_digit c \<Longrightarrow> char_of (48 + (code_unit c - 48)) = c"
  by (simp add: is_digit_def char_of_code_unit)

lemma decimal_small: "n < 10 \<Longrightarrow> decimal n = [char_of (48 + n)]"
  by (simp add: decimal.simps [of n])

lemma decimal_two: "10 \<le> n \<Longrightarrow> n < 100 \<Longrightarrow> decimal n = [char_of (48 + n div 10), char_of (48 + n mod 10)]"
  by (simp add: decimal.simps [of n] decimal_small)

lemma Number_one: "Number [a] = int (code_unit a) - 48"
  by (simp add: Number_def)

lemma Number_two: "Number [a, b] = 10 * (int (code_unit a) - 48) + (int (code_unit b) - 48)"
  by (simp add: Number_def)

lemma pad_one_digit:
  assumes "is_digit a"
  shows "padStart 2 (CHR ''0'') (toString (Number [a])) = [CHR ''0'', a]"
proof -
  from assms obtain k where k: "code_unit a = 48 + k" "k < 10"
    by (auto simp: is_digit_def le_iff_add)
  then have "toString (Number [a]) = [char_of (48 + k)]"
    by (simp add: Number_one toString_def decimal_small)
  also have "char_of (48 + k) = a" using k(1) char_of_code_unit [of a] by simp
  finally show ?thesis by (simp add: padStart_def)
qed

lemma pad_two_digits:
  assumes "is_digit a" "is_digit b"
  shows "padStart 2 (CHR ''0'') (toString (Number [a, b])) = [a, b]"
proof -
  from assms obtain k where k: "code_unit a = 48 + k" "k < 10"
    by (auto simp: is_digit_def le_iff_add)
  from assms obtain l where l: "code_unit b = 48 + l" "l < 10"
    by (auto simp: is_digit_def le_iff_add)
  have a: "char_of (48 + k) = a" using k(1) char_of_code_unit [of a] by simp
  have b: "char_of (48 + l) = b" using l(1) char_of_code_unit [of b] by simp
  have n: "toString (Number [a, b]) = decimal (10 * k + l)"
    using k l by (simp add: Number_two toString_def nat_add_distrib nat_mult_distrib)
  show ?thesis
  proof (cases "k = 0")
    case True
    with a have "a = CHR ''0''" by (simp add: char_of_48)
    with True n l b show ?thesis by (simp add: decimal_small padStart_def)
  next
    case False
    with k l have "10 \<le> 10 * k + l" "10 * k + l < 100" by auto
    then have "decimal (10 * k + l) = [char_of (48 + (10 * k + l) div 10), char_of (48 + (10 * k + l) mod 10)]"
      by (rule decimal_two)
    moreover have "(10 * k + l) div 10 = k" "(10 * k + l) mod 10 = l" using l by auto
    ultimately show ?thesis using n a b by (simp add: padStart_def)
  qed
qed

lemma Number_one_range: "is_digit a \<Longrightarrow> 0 \<le> Number [a] \<and> Number [a] \<le> 9"
  by (auto simp: Number_one is_digit_def)

lemma Number_two_nonneg: "is_digit a \<Longrightarrow> is_digit b \<Longrightarrow> 0 \<le> Number [a, b]"
  by (auto simp: Number_two is_digit_def)

lemma timePattern_exec_groups:
  assumes "list_all is_digit h" "(length h = 1 \<or> length h = 2)" "length m = 2" "list_all is_digit m"
  shows "timePattern_exec (h @ '':'' @ m) = Some (h, m)"
proof -
  have "test timePattern (h @ '':'' @ m)"
    unfolding test_timePattern using assms by blast
  moreover have "takeWhile (\<lambda>c. c \<noteq> CHR '':'') (h @ '':'' @ m) = h"
    using assms(1) by (auto simp: takeWhile_append list_all_iff dest: digit_not_colon)
  moreover have "dropWhile (\<lambda>c. c \<noteq> CHR '':'') (h @ '':'' @ m) = '':'' @ m"
    using assms(1) by (auto simp: dropWhile_append list_all_iff dest: digit_not_colon)
  ultimately show ?thesis by (simp add: timePattern_exec_def)
qed

lemma timePattern_exec_None:
  "timePattern_exec s = None \<longleftrightarrow> \<not> test timePattern s"
  by (simp add: timePattern_exec_def)

lemma pad_hours:
  assumes "(length h = 1 \<or> length h = 2)" "list_all is_digit h"
  shows "padStart 2 (CHR ''0'') (toString (Number h)) = padStart 2 (CHR ''0'') h"
proof -
  from assms(1) consider a where "h = [a]" | a b where "h = [a, b]"
    by (cases h; cases "tl h"; cases "tl (tl h)") auto
  then show ?thesis
  proof cases
    case 1
    with assms(2) have "padStart 2 (CHR ''0'') (toString (Number h)) = [CHR ''0'', a]"
      by (simp add: pad_one_digit)
    with 1 show ?thesis by (simp add: padStart_def)
  next
    case 2
    with assms(2) have "padStart 2 (CHR ''0'') (toString (Number h)) = [a, b]"
      by (simp add: pad_two_digits)
    with 2 show ?thesis by (simp add: padStart_def)
  qed
qed

lemma pad_minutes:
  assumes "length m = 2" "list_all is_digit m"
  shows "padStart 2 (CHR ''0'') (toString (Number m)) = m"
  using pad_hours [of m] assms by (simp add: padStart_def)

lemma fields_nonneg:
  assumes "(length h = 1 \<or> length h = 2)" "list_all is_digit h"
  shows "0 \<le> Number h"
proof -
  from assms(1) consider a where "h = [a]" | a b where "h = [a, b]"
    by (cases h; cases "tl h"; cases "tl (tl h)") auto
  then show ?thesis using assms(2) by cases (auto simp: Number_one_range Number_two_nonneg)
qed

lemma normalizeTime_fields:
  assumes t: "trim v = h @ '':'' @ m" and f: "time_fields h m"
  shows "normalizeTime v =
     (if Number h \<le> 23 \<and> Number m \<le> 59
      then Inr (padStart 2 (CHR ''0'') h @ '':'' @ m)
      else Inl (Error (''Invalid time value: '' @ quoted v @ ''.'')))"
proof -
  from f have ex: "timePattern_exec (trim v) = Some (h, m)"
    unfolding t time_fields_def by (intro timePattern_exec_groups) auto
  from f have nn: "0 \<le> Number h" "0 \<le> Number m"
    by (auto simp: time_fields_def intro: fields_nonneg)
  from f have p: "padStart 2 (CHR ''0'') (toString (Number h)) = padStart 2 (CHR ''0'') h"
    "padStart 2 (CHR ''0'') (toString (Number m)) = m"
    by (auto simp: time_fields_def intro: pad_hours pad_minutes)
  have ne: "trim v \<noteq> []" using t by simp
  show ?thesis
    using ne nn by (auto simp: normalizeTime_def Let_def ex p)
qed

lemma normalizeTime_no_fields:
  assumes "\<not> (\<exists>h m. trim v = h @ '':'' @ m \<and> time_fields h m)"
  shows "normalizeTime v =
     (if trim v = [] then Inl (Error ''Time is required and cannot be empty.'')
      else Inl (Error (''Invalid time format (expected HH:mm): '' @ quoted v @ ''.'')))"
proof -
  from assms have "\<not> test timePattern (trim v)"
    unfolding test_timePattern time_fields_def by blast
  then show ?thesis
    by (simp add: normalizeTime_def Let_def timePattern_exec_def)
qed

lemma normalizeTime_examples:
  "normalizeTime ''9:5'' = Inl (Error (''Invalid time format (expected HH:mm): '' @ quoted ''9:5'' @ ''.''))"
  "normalizeTime ''24:00'' = Inl (Error (''Invalid time value: '' @ quoted ''24:00'' @ ''.''))"
  "normalizeTime ''12:60'' = Inl (Error (''Invalid time value: '' @ quoted ''12:60'' @ ''.''))"
  "normalizeTime ''09:05'' = Inr ''09:05''"
  "normalizeTime ''23:59'' = Inr ''23:59''"
  by code_simp+

lemma normalizeTime_failure:
  assumes "\<not> (\<exists>h m. trim v = h @ '':'' @ m \<and> time_fields h m \<and> Number h \<le> 23 \<and> Number m \<le> 59)"
  shows "\<exists>msg. normalizeTime v = Inl (Error msg)"
proof (cases "\<exists>h m. trim v = h @ '':'' @ m \<and> time_fields h m")
  case True
  then obtain h m where hm: "trim v = h @ '':'' @ m" "time_fields h m" by blast
  with assms have "\<not> (Number h \<le> 23 \<and> Number m \<le> 59)" by blast
  with normalizeTime_fields [OF hm] show ?thesis by simp
next
  case False
  then show ?thesis by (simp add: normalizeTime_no_fields)
qed

lemma padded_time_shape:
  assumes "time_fields h m"
  shows "test (Seq (Times 2 (Class is_digit)) (Seq (Chr (CHR '':'')) (Times 2 (Class is_digit))))
           (padStart 2 (CHR ''0'') h @ '':'' @ m)"
proof -
  have z: "is_digit (CHR ''0'')" by (simp add: is_digit_def code_unit_def)
  have "length (padStart 2 (CHR ''0'') h) = 2 \<and> list_all is_digit (padStart 2 (CHR ''0'') h)"
    using assms z by (auto simp: time_fields_def padStart_def)
  moreover have "length m = 2 \<and> list_all is_digit m" using assms by (simp add: time_fields_def)
  ultimately show ?thesis
    unfolding test_lang by (simp add: conc_iff lang_Times_Class lang_Chr del: Times.simps) blast
qed

text \<open>
  Claim C2. \<open>normalizeTime\<close> succeeds exactly when the trimmed input is an hour of one or two
  digits, a colon and a minute of exactly two digits, with the hour at most 23 and the minute
  at most 59; the result is then the hour padded with a zero to two digits, the colon and the
  minute, a string of the form HH:mm. Every other input fails with an error. In particular
  "9:5", "24:00" and "12:60" fail, and "09:05" and "23:59" are returned as they are.
\<close>

theorem normalizeTime_contract:
  "(\<forall>h m. trim v = h @ '':'' @ m \<and> time_fields h m \<and> Number h \<le> 23 \<and> Number m \<le> 59 \<longrightarrow>
      normalizeTime v = Inr (padStart 2 (CHR ''0'') h @ '':'' @ m) \<and>
      test (Seq (Times 2 (Class is_digit)) (Seq (Chr (CHR '':'')) (Times 2 (Class is_digit))))
        (padStart 2 (CHR ''0'') h @ '':'' @ m)) \<and>
   ((\<exists>r. normalizeTime v = Inr r) \<longleftrightarrow>
      (\<exists>h m. trim v = h @ '':'' @ m \<and> time_fields h m \<and> Number h \<le> 23 \<and> Number m \<le> 59)) \<and>
   ((\<nexists>r. normalizeTime v = Inr r) \<longrightarrow> (\<exists>msg. normalizeTime v = Inl (Error msg))) \<and>
   normalizeTime ''9:5'' = Inl (Error (''Invalid time format (expected HH:mm): '' @ quoted ''9:5'' @ ''.'')) \<and>
   normalizeTime ''24:00'' = Inl (Error (''Invalid time value: '' @ quoted ''24:00'' @ ''.'')) \<and>
   normalizeTime ''12:60'' = Inl (Error (''Invalid time value: '' @ quoted ''12:60'' @ ''.'')) \<and>
   normalizeTime ''09:05'' = Inr ''09:05'' \<and>
   normalizeTime ''23:59'' = Inr ''23:59''"
proof -
  have ok: "normalizeTime v = Inr (padStart 2 (CHR ''0'') h @ '':'' @ m)"
    if "trim v = h @ '':'' @ m" "time_fields h m" "Number h \<le> 23" "Number m \<le> 59" for h m
    using normalizeTime_fields [OF that(1,2)] that(3,4) by simp
  have iff: "(\<exists>r. normalizeTime v = Inr r) \<longleftrightarrow>
      (\<exists>h m. trim v = h @ '':'' @ m \<and> time_fields h m \<and> Number h \<le> 23 \<and> Number m \<le> 59)"
    using ok normalizeTime_failure [of v] by (metis Inl_Inr_False)
  have fail: "(\<nexists>r. normalizeTime v = Inr r) \<longrightarrow> (\<exists>msg. normalizeTime v = Inl (Error msg))"
    using iff normalizeTime_failure [of v] by blast
  show ?thesis
    using ok padded_time_shape iff fail normalizeTime_examples by blast
qed

theorem normalizeTime_contract_witness:
  "trim '' 7:30 '' = ''7'' @ '':'' @ ''30'' \<and> time_fields ''7'' ''30'' \<and> Number ''7'' \<le> 23 \<and>
   Number ''30'' \<le> 59 \<and> normalizeTime '' 7:30 '' = Inr ''07:30''"
proof -
  have a: "trim '' 7:30 '' = ''7'' @ '':'' @ ''30''" by code_simp
  have b: "time_fields ''7'' ''30''" by code_simp
  have c: "Number ''7'' \<le> 23" "Number ''30'' \<le> 59" by code_simp+
  have d: "padStart 2 (CHR ''0'') ''7'' @ '':'' @ ''30'' = ''07:30''" by code_simp
  from normalizeTime_contract [of "'' 7:30 ''"] a b c
  have "normalizeTime '' 7:30 '' = Inr (padStart 2 (CHR ''0'') ''7'' @ '':'' @ ''30'')" by blast
  with a b c d show ?thesis by simp
qed

section \<open>Properties of normalizeDate\<close>

subsection \<open>The calendar of the model is that of ECMAScript\<close>

lemma DayFromYear_march: "DayFromYear (y + 1) = march_first y + 306 - 719468"
proof -
  have "(y + 1 - 1969) div 4 = (y + - 492 * 4) div 4" by simp
  also have "\<dots> = y div 4 - 492" by (simp only: div_mult_self2)
  finally have a: "(y + 1 - 1969) div 4 = y div 4 - 492" .
  have "(y + 1 - 1901) div 100 = (y + - 19 * 100) div 100" by simp
  also have "\<dots> = y div 100 - 19" by (simp only: div_mult_self2)
  finally have b: "(y + 1 - 1901) div 100 = y div 100 - 19" .
  have "(y + 1 - 1601) div 400 = (y + - 4 * 400) div 400" by simp
  also have "\<dots> = y div 400 - 4" by (simp only: div_mult_self2)
  finally have c: "(y + 1 - 1601) div 400 = y div 400 - 4" .
  show ?thesis unfolding DayFromYear_def march_first_def a b c by simp
qed

lemma div_succ:
  fixes y k :: int
  assumes "1 < k"
  shows "(y + 1) div k = y div k + (if (y + 1) mod k = 0 then 1 else 0)"
proof -
  define q where "q = y div k"
  define r where "r = y mod k"
  have y: "y = k * q + r" and r: "0 \<le> r" "r < k"
    using assms by (simp_all add: q_def r_def)
  show ?thesis
  proof (cases "r + 1 = k")
    case True
    then have "y + 1 = k * (q + 1) + 0" using y by (simp add: algebra_simps)
    then have "(y + 1) div k = q + 1" "(y + 1) mod k = 0"
      using assms by (auto intro: int_div_pos_eq int_mod_pos_eq)
    then show ?thesis by (simp add: q_def)
  next
    case False
    with r have lt: "r + 1 < k" by simp
    have "y + 1 = k * q + (r + 1)" using y by simp
    then have "(y + 1) div k = q" "(y + 1) mod k = r + 1"
      using r lt by (auto intro: int_div_pos_eq int_mod_pos_eq)
    with r show ?thesis by (simp add: q_def)
  qed
qed

lemma march_first_step: "march_first (y + 1) = march_first y + 365 + leap_day (y + 1)"
proof -
  have d: "(y + 1) mod 4 = 0" if "(y + 1) mod 100 = 0"
    using mod_mod_cancel [of 4 100 "y + 1"] that by simp
  have e: "(y + 1) mod 100 = 0" if "(y + 1) mod 400 = 0"
    using mod_mod_cancel [of 100 400 "y + 1"] that by simp
  show ?thesis
    unfolding march_first_def leap_day_def div_succ [of 4 y, simplified]
      div_succ [of 100 y, simplified] div_succ [of 400 y, simplified]
    using d e by auto
qed


lemma civil_cycles:
  obtains era c q a doy where
    "z + 719468 = 146097 * era + 36524 * c + 1461 * q + 365 * a + doy"
    "0 \<le> c" "c \<le> 3" "0 \<le> q" "q \<le> 24" "0 \<le> a" "a \<le> 3" "0 \<le> doy" "doy \<le> 365"
    "doy = 365 \<longrightarrow> a = 3 \<and> (q = 24 \<longrightarrow> c = 3)"
    "civil z =
       (if (if (5 * doy + 2) div 153 < 10 then (5 * doy + 2) div 153 + 3 else (5 * doy + 2) div 153 - 9) \<le> 2
        then 400 * era + 100 * c + 4 * q + a + 1 else 400 * era + 100 * c + 4 * q + a,
        if (5 * doy + 2) div 153 < 10 then (5 * doy + 2) div 153 + 3 else (5 * doy + 2) div 153 - 9,
        doy - (153 * ((5 * doy + 2) div 153) + 2) div 5 + 1)"
proof -
  define n where "n = z + 719468"
  define era where "era = n div 146097"
  define doe where "doe = n mod 146097"
  define c where "c = min (doe div 36524) 3"
  define doc where "doc = doe - 36524 * c"
  define q where "q = doc div 1461"
  define doq where "doq = doc mod 1461"
  define a where "a = min (doq div 365) 3"
  define doy where "doy = doq - 365 * a"
  have n: "n = 146097 * era + doe" by (simp add: era_def doe_def)
  have doe: "0 \<le> doe" "doe < 146097" by (simp_all add: doe_def)
  have k1: "0 \<le> doe mod 36524" "doe mod 36524 < 36524" "doe = 36524 * (doe div 36524) + doe mod 36524"
    by simp_all
  have c: "0 \<le> c" "c \<le> 3" using doe k1 unfolding c_def min_def by (simp_all split: if_splits) linarith
  have doc: "0 \<le> doc" "doc \<le> 36524" "c < 3 \<Longrightarrow> doc \<le> 36523"
    using doe k1 unfolding doc_def c_def min_def by (simp_all split: if_splits) linarith+
  have k2: "0 \<le> doq" "doq < 1461" "doc = 1461 * q + doq" by (simp_all add: q_def doq_def)
  have q: "0 \<le> q" "q \<le> 24" using doc k2 by linarith+
  have doq: "q = 24 \<Longrightarrow> c < 3 \<Longrightarrow> doq \<le> 1459" using doc(3) k2 by linarith
  have k3: "0 \<le> doq mod 365" "doq mod 365 < 365" "doq = 365 * (doq div 365) + doq mod 365"
    by simp_all
  have a: "0 \<le> a" "a \<le> 3" using k2 k3 unfolding a_def min_def by (simp_all split: if_splits) linarith
  have doy: "0 \<le> doy" "doy \<le> 365" "doy = 365 \<Longrightarrow> a = 3 \<and> doq = 1460"
    using k2 k3 unfolding doy_def a_def min_def by (simp_all split: if_splits) linarith+
  have last: "doy = 365 \<longrightarrow> a = 3 \<and> (q = 24 \<longrightarrow> c = 3)"
  proof
    assume that: "doy = 365"
    from doy(3) [OF that] have a3: "a = 3" and d: "doq = 1460" by simp_all
    have "c = 3" if "q = 24"
    proof (rule ccontr)
      assume "c \<noteq> 3"
      with c have "c < 3" by simp
      from doq [OF \<open>q = 24\<close> this] d show False by simp
    qed
    with a3 show "a = 3 \<and> (q = 24 \<longrightarrow> c = 3)" by simp
  qed
  have sum: "z + 719468 = 146097 * era + 36524 * c + 1461 * q + 365 * a + doy"
    using n k2(3) by (simp add: doc_def doy_def n_def)
  have civ: "civil z =
       (if (if (5 * doy + 2) div 153 < 10 then (5 * doy + 2) div 153 + 3 else (5 * doy + 2) div 153 - 9) \<le> 2
        then 400 * era + 100 * c + 4 * q + a + 1 else 400 * era + 100 * c + 4 * q + a,
        if (5 * doy + 2) div 153 < 10 then (5 * doy + 2) div 153 + 3 else (5 * doy + 2) div 153 - 9,
        doy - (153 * ((5 * doy + 2) div 153) + 2) div 5 + 1)"
    unfolding civil_def Let_def doy_def a_def doq_def q_def doc_def c_def doe_def era_def n_def
    by (rule refl)
  from sum c q a doy(1,2) last civ show ?thesis by (rule that)
qed


lemma march_first_cycles:
  assumes "0 \<le> c" "c \<le> 3" "0 \<le> q" "q \<le> 24" "0 \<le> a" "a \<le> 3"
  shows "march_first (400 * era + 100 * c + 4 * q + a) =
           146097 * era + 36524 * c + 1461 * q + 365 * a"
proof -
  let ?y = "400 * era + 100 * c + 4 * q + a"
  have "?y = 4 * (100 * era + 25 * c + q) + a" by simp
  then have d4: "?y div 4 = 100 * era + 25 * c + q"
    using assms by (intro int_div_pos_eq [where r = a]) auto
  have "?y = 100 * (4 * era + c) + (4 * q + a)" by simp
  then have d100: "?y div 100 = 4 * era + c"
    using assms by (intro int_div_pos_eq [where r = "4 * q + a"]) auto
  have "?y = 400 * era + (100 * c + 4 * q + a)" by simp
  then have d400: "?y div 400 = era"
    using assms by (intro int_div_pos_eq [where r = "100 * c + 4 * q + a"]) auto
  show ?thesis unfolding march_first_def d4 d100 d400 by simp
qed

lemma leap_day_last:
  assumes "0 \<le> c" "c \<le> 3" "0 \<le> q" "q \<le> 24" "a = 3" "q = 24 \<longrightarrow> c = 3"
  shows "leap_day (400 * era + 100 * c + 4 * q + a + 1) = 1"
proof -
  let ?y = "400 * era + 100 * c + 4 * q + a + 1"
  have e4: "?y = 4 * (100 * era + 25 * c + q + 1)" using assms by simp
  have m4: "?y mod 4 = 0" unfolding e4 by simp
  show ?thesis
  proof (cases "q = 24")
    case True
    with assms have e400: "?y = 400 * (era + 1)" by simp
    have "?y mod 400 = 0" unfolding e400 by simp
    moreover from True assms have e100: "?y = 100 * (4 * era + 4)" by simp
    have "?y mod 100 = 0" unfolding e100 by simp
    ultimately show ?thesis using m4 by (simp add: leap_day_def)
  next
    case False
    have "?y = 100 * (4 * era + c) + (4 * q + 4)" using assms by simp
    moreover have "0 \<le> 4 * q + 4" "4 * q + 4 < 100" using assms False by auto
    ultimately have "?y mod 100 = 4 * q + 4" by (rule int_mod_pos_eq)
    with assms have "?y mod 100 \<noteq> 0" by simp
    with m4 show ?thesis by (simp add: leap_day_def)
  qed
qed

lemma leap_day_range: "leap_day y = 0 \<or> leap_day y = 1"
  by (simp add: leap_day_def)

lemma months_from_march:
  assumes "0 \<le> doy" "doy < 306" "l = 0 \<or> l = 1"
  defines "mp \<equiv> (5 * doy + 2) div 153"
  shows "0 \<le> mp \<and> mp < 10"
    and "mp + 3 - 1 = month_of_day l (doy + 59 + l)"
    and "doy - (153 * mp + 2) div 5 + 1 = date_of_day l (doy + 59 + l)"
proof -
  define r where "r = (5 * doy + 2) mod 153"
  have r: "0 \<le> r" "r < 153" "153 * mp + r = 5 * doy + 2"
    by (simp_all add: r_def mp_def)
  from r assms(1,2) have "0 \<le> mp" "mp < 10" by linarith+
  then show "0 \<le> mp \<and> mp < 10" by simp
  from \<open>0 \<le> mp\<close> \<open>mp < 10\<close>
  have k: "mp = 0 \<or> mp = 1 \<or> mp = 2 \<or> mp = 3 \<or> mp = 4 \<or> mp = 5 \<or> mp = 6 \<or> mp = 7 \<or>
    mp = 8 \<or> mp = 9" by presburger
  from k r assms(3) show "mp + 3 - 1 = month_of_day l (doy + 59 + l)"
    by (elim disjE) (simp_all add: month_of_day_def)
  from k r assms(3) show "doy - (153 * mp + 2) div 5 + 1 = date_of_day l (doy + 59 + l)"
    by (elim disjE) (simp_all add: month_of_day_def date_of_day_def)
qed


lemma months_before_march:
  assumes "306 \<le> doy" "doy \<le> 365" "doy = 365 \<Longrightarrow> l = 1" "l = 0 \<or> l = 1"
  defines "mp \<equiv> (5 * doy + 2) div 153"
  shows "10 \<le> mp \<and> mp \<le> 11"
    and "mp - 9 - 1 = month_of_day l (doy - 306)"
    and "doy - (153 * mp + 2) div 5 + 1 = date_of_day l (doy - 306)"
proof -
  define r where "r = (5 * doy + 2) mod 153"
  have r: "0 \<le> r" "r < 153" "153 * mp + r = 5 * doy + 2"
    by (simp_all add: r_def mp_def)
  from r assms(1,2) have "10 \<le> mp" "mp \<le> 11" by linarith+
  then show "10 \<le> mp \<and> mp \<le> 11" by simp
  from \<open>10 \<le> mp\<close> \<open>mp \<le> 11\<close> have k: "mp = 10 \<or> mp = 11" by presburger
  have l: "doy - 306 < 59 + l" using assms(2,3,4) by (cases "doy = 365") auto
  from k r l assms(4) show "mp - 9 - 1 = month_of_day l (doy - 306)"
    by (elim disjE) (simp_all add: month_of_day_def)
  from k r l assms(4) show "doy - (153 * mp + 2) div 5 + 1 = date_of_day l (doy - 306)"
    by (elim disjE) (simp_all add: month_of_day_def date_of_day_def)
qed

lemma civil_calendar:
  "DayFromYear (fst (civil z)) \<le> z \<and> z < DayFromYear (fst (civil z) + 1) \<and>
   fst (snd (civil z)) - 1 = month_of_day (leap_day (fst (civil z))) (z - DayFromYear (fst (civil z))) \<and>
   snd (snd (civil z)) = date_of_day (leap_day (fst (civil z))) (z - DayFromYear (fst (civil z)))"
proof -
  obtain era c q a doy where
    sum: "z + 719468 = 146097 * era + 36524 * c + 1461 * q + 365 * a + doy"
    and b: "0 \<le> c" "c \<le> 3" "0 \<le> q" "q \<le> 24" "0 \<le> a" "a \<le> 3"
    and doy: "0 \<le> doy" "doy \<le> 365"
    and last: "doy = 365 \<longrightarrow> a = 3 \<and> (q = 24 \<longrightarrow> c = 3)"
    and civ: "civil z =
       (if (if (5 * doy + 2) div 153 < 10 then (5 * doy + 2) div 153 + 3 else (5 * doy + 2) div 153 - 9) \<le> 2
        then 400 * era + 100 * c + 4 * q + a + 1 else 400 * era + 100 * c + 4 * q + a,
        if (5 * doy + 2) div 153 < 10 then (5 * doy + 2) div 153 + 3 else (5 * doy + 2) div 153 - 9,
        doy - (153 * ((5 * doy + 2) div 153) + 2) div 5 + 1)"
    by (rule civil_cycles [of z]) blast
  define ym where "ym = 400 * era + 100 * c + 4 * q + a"
  define mp where "mp = (5 * doy + 2) div 153"
  have z: "z = march_first ym + doy - 719468"
    using sum march_first_cycles [OF b, of era] by (simp add: ym_def)
  show ?thesis
  proof (cases "doy < 306")
    case True
    let ?l = "leap_day ym"
    note m = months_from_march [OF doy(1) True leap_day_range [of ym]]
    from m(1) have f: "fst (civil z) = ym" "fst (snd (civil z)) = mp + 3"
      "snd (snd (civil z)) = doy - (153 * mp + 2) div 5 + 1"
      by (simp_all add: civ ym_def mp_def)
    have "march_first ym = march_first (ym - 1) + 365 + ?l"
      using march_first_step [of "ym - 1"] by simp
    moreover have "DayFromYear ym = march_first (ym - 1) + 306 - 719468"
      using DayFromYear_march [of "ym - 1"] by simp
    ultimately have d: "z - DayFromYear ym = doy + 59 + ?l" using z by simp
    have up: "z < DayFromYear (ym + 1)" using z True by (simp add: DayFromYear_march)
    have lo: "DayFromYear ym \<le> z" using d doy(1) leap_day_range [of ym] by linarith
    from lo up m(2,3) show ?thesis by (simp add: f d mp_def)
  next
    case False
    let ?l = "leap_day (ym + 1)"
    have l1: "?l = 1" if "doy = 365"
      using last that leap_day_last [OF b(1-4), of a era] by (simp add: ym_def)
    from False have ge: "306 \<le> doy" by simp
    note m = months_before_march [OF ge doy(2) l1 leap_day_range [of "ym + 1"]]
    from m(1) have f: "fst (civil z) = ym + 1" "fst (snd (civil z)) = mp - 9"
      "snd (snd (civil z)) = doy - (153 * mp + 2) div 5 + 1"
      by (simp_all add: civ ym_def mp_def)
    have d: "z - DayFromYear (ym + 1) = doy - 306" using z by (simp add: DayFromYear_march)
    have "march_first (ym + 1) = march_first ym + 365 + ?l" by (rule march_first_step)
    moreover have "DayFromYear (ym + 1 + 1) = march_first (ym + 1) + 306 - 719468"
      by (rule DayFromYear_march)
    ultimately have up: "z < DayFromYear (ym + 1 + 1)"
      using z doy(2) leap_day_range [of "ym + 1"] by linarith
    have lo: "DayFromYear (ym + 1) \<le> z" using d ge by linarith
    from lo up m(2,3) show ?thesis by (simp add: f d mp_def)
  qed
qed

lemma DayFromYear_step: "DayFromYear (y + 1) = DayFromYear y + 365 + leap_day y"
proof -
  have "DayFromYear y = march_first (y - 1) + 306 - 719468"
    using DayFromYear_march [of "y - 1"] by simp
  moreover have "march_first y = march_first (y - 1) + 365 + leap_day y"
    using march_first_step [of "y - 1"] by simp
  ultimately show ?thesis by (simp add: DayFromYear_march)
qed

lemma DayFromYear_less: "DayFromYear y < DayFromYear (y + 1 + int n)"
proof (induction n)
  case 0
  show ?case using DayFromYear_step [of y] leap_day_range [of y] by auto
next
  case (Suc n)
  have "DayFromYear (y + 1 + int n) < DayFromYear (y + 1 + int n + 1)"
    using DayFromYear_step [of "y + 1 + int n"] leap_day_range [of "y + 1 + int n"] by auto
  with Suc show ?case by (simp add: add.assoc)
qed

lemma DayFromYear_strict_mono: "y < y' \<Longrightarrow> DayFromYear y < DayFromYear y'"
  using DayFromYear_less [of y "nat (y' - y - 1)"] by simp

text \<open>
  The fields of the model are those of ECMAScript: the year is the largest one that starts no
  later than the time value, and the month and the day of the month are those of the tables.
\<close>

lemma YearFromTime_largest: "DayFromYear y \<le> Day t \<longleftrightarrow> y \<le> YearFromTime t"
proof
  assume le: "DayFromYear y \<le> Day t"
  show "y \<le> YearFromTime t"
  proof (rule ccontr)
    assume "\<not> y \<le> YearFromTime t"
    then have "YearFromTime t + 1 \<le> y" by simp
    then have "DayFromYear (YearFromTime t + 1) \<le> DayFromYear y"
      using DayFromYear_strict_mono [of "YearFromTime t + 1" y] by (cases "YearFromTime t + 1 = y") auto
    with le civil_calendar [of "Day t"] show False by (simp add: YearFromTime_def)
  qed
next
  assume "y \<le> YearFromTime t"
  then have "DayFromYear y \<le> DayFromYear (YearFromTime t)"
    using DayFromYear_strict_mono [of y "YearFromTime t"] by (cases "y = YearFromTime t") auto
  with civil_calendar [of "Day t"] show "DayFromYear y \<le> Day t" by (simp add: YearFromTime_def)
qed

lemma MonthFromTime_table:
  "MonthFromTime t = month_of_day (leap_day (YearFromTime t)) (Day t - DayFromYear (YearFromTime t))"
  using civil_calendar [of "Day t"] by (simp add: MonthFromTime_def YearFromTime_def)

lemma DateFromTime_table:
  "DateFromTime t = date_of_day (leap_day (YearFromTime t)) (Day t - DayFromYear (YearFromTime t))"
  using civil_calendar [of "Day t"] by (simp add: DateFromTime_def YearFromTime_def)

subsection \<open>The date in the ISO rendering\<close>

lemma civil_month_day:
  "1 \<le> fst (snd (civil z)) \<and> fst (snd (civil z)) \<le> 12 \<and>
   1 \<le> snd (snd (civil z)) \<and> snd (snd (civil z)) \<le> 31"
proof -
  define doe where "doe = (z + 719468) mod 146097"
  define doc where "doc = doe - 36524 * min (doe div 36524) 3"
  define doq where "doq = doc mod 1461"
  define k where "k = doq div 365"
  define doy where "doy = doq - 365 * min k 3"
  define mp where "mp = (5 * doy + 2) div 153"
  define r where "r = (5 * doy + 2) mod 153"
  define e where "e = (153 * mp + 2) div 5"
  define f where "f = (153 * mp + 2) mod 5"
  have doq: "0 \<le> doq" "doq < 1461" by (simp_all add: doq_def)
  have k: "0 \<le> doq mod 365" "doq mod 365 < 365" "365 * k + doq mod 365 = doq"
    by (simp_all add: k_def)
  have doy: "0 \<le> doy" "doy \<le> 365"
    using doq k unfolding doy_def min_def by (simp_all split: if_splits) linarith+
  have r: "0 \<le> r" "r < 153" "153 * mp + r = 5 * doy + 2"
    by (simp_all add: r_def mp_def)
  have f: "0 \<le> f" "f < 5" "5 * e + f = 153 * mp + 2"
    by (simp_all add: f_def e_def)
  from r doy have mp: "0 \<le> mp" "mp \<le> 11" by linarith+
  from r f have d: "1 \<le> doy - e + 1" "doy - e + 1 \<le> 31" by linarith+
  have m: "1 \<le> (if mp < 10 then mp + 3 else mp - 9)" "(if mp < 10 then mp + 3 else mp - 9) \<le> 12"
    using mp by auto
  have "fst (snd (civil z)) = (if mp < 10 then mp + 3 else mp - 9)"
    unfolding civil_def Let_def mp_def doy_def k_def doq_def doc_def doe_def
    by (simp only: fst_conv snd_conv)
  moreover have "snd (snd (civil z)) = doy - e + 1"
    unfolding civil_def Let_def e_def mp_def doy_def k_def doq_def doc_def doe_def
    by (simp only: fst_conv snd_conv)
  ultimately show ?thesis using m d by simp
qed

lemma code_unit_digit: "k < 10 \<Longrightarrow> code_unit (char_of (48 + k)) = 48 + (k :: nat)"
  by (simp add: code_unit_def)

lemma is_digit_char_of: "k < 10 \<Longrightarrow> is_digit (char_of (48 + (k :: nat)))"
  by (simp add: is_digit_def code_unit_digit)

lemma decimal_digits: "list_all is_digit (decimal n)"
proof (induction n rule: decimal.induct)
  case (1 n)
  show ?case
  proof (cases "n < 10")
    case True
    then show ?thesis by (simp add: decimal_small is_digit_char_of)
  next
    case False
    then have "decimal n = decimal (n div 10) @ [char_of (48 + n mod 10)]"
      by (simp add: decimal.simps [of n])
    with 1 False show ?thesis by (simp add: is_digit_char_of)
  qed
qed

lemma length_decimal: "n < 10 ^ k \<Longrightarrow> 0 < k \<Longrightarrow> length (decimal n) \<le> k"
proof (induction n arbitrary: k rule: decimal.induct)
  case (1 n)
  show ?case
  proof (cases "n < 10")
    case True
    with 1(3) show ?thesis by (simp add: decimal_small Suc_leI)
  next
    case False
    then have d: "decimal n = decimal (n div 10) @ [char_of (48 + n mod 10)]"
      by (simp add: decimal.simps [of n])
    from False 1(2) have "1 < k" by (cases k; cases "k - 1") auto
    then obtain j where j: "k = Suc j" "0 < j" by (cases k) auto
    from 1(2) j have "n div 10 < 10 ^ j" by (simp add: less_mult_imp_div_less mult.commute)
    with 1(1) [OF False this j(2)] d j show ?thesis by simp
  qed
qed

lemma pad_shape:
  assumes "0 \<le> i" "i < 10 ^ k" "0 < k"
  shows "length (pad k i) = k \<and> list_all is_digit (pad k i)"
proof -
  have z: "is_digit (CHR ''0'')" by (simp add: is_digit_def code_unit_def)
  from assms have "nat i < 10 ^ k" by (simp add: nat_less_iff)
  then have "length (decimal (nat i)) \<le> k" using assms(3) by (rule length_decimal)
  moreover have "list_all is_digit (decimal (nat i))" by (rule decimal_digits)
  ultimately show ?thesis
    using assms(1) z by (auto simp: pad_def padStart_def toString_def list_all_iff)
qed

lemma MonthFromTime_range: "0 \<le> MonthFromTime t \<and> MonthFromTime t \<le> 11"
  using civil_month_day [of "Day t"] by (simp add: MonthFromTime_def)

lemma DateFromTime_range: "1 \<le> DateFromTime t \<and> DateFromTime t \<le> 31"
  using civil_month_day [of "Day t"] by (simp add: DateFromTime_def)

lemma take_date:
  assumes "length y = 4" "length m = 2" "length d = 2"
  shows "take 10 (y @ ''-'' @ m @ ''-'' @ d @ rest) = y @ ''-'' @ m @ ''-'' @ d"
  using assms by simp

lemma toISOString_date:
  assumes "0 \<le> YearFromTime t" "YearFromTime t \<le> 9999"
  shows "take 10 (toISOString t) =
           pad 4 (YearFromTime t) @ ''-'' @ pad 2 (MonthFromTime t + 1) @ ''-'' @ pad 2 (DateFromTime t)"
    and "test isoDatePattern (take 10 (toISOString t))"
proof -
  have y: "length (pad 4 (YearFromTime t)) = 4 \<and> list_all is_digit (pad 4 (YearFromTime t))"
    using assms by (intro pad_shape) auto
  have m: "length (pad 2 (MonthFromTime t + 1)) = 2 \<and> list_all is_digit (pad 2 (MonthFromTime t + 1))"
    using MonthFromTime_range [of t] by (intro pad_shape) auto
  have d: "length (pad 2 (DateFromTime t)) = 2 \<and> list_all is_digit (pad 2 (DateFromTime t))"
    using DateFromTime_range [of t] by (intro pad_shape) auto
  have "toISOString t = pad 4 (YearFromTime t) @ ''-'' @ pad 2 (MonthFromTime t + 1) @ ''-'' @
      pad 2 (DateFromTime t) @ (''T'' @ pad 2 (HourFromTime t) @ '':'' @ pad 2 (MinFromTime t) @
     '':'' @ pad 2 (SecFromTime t) @ ''.'' @ pad 3 (msFromTime t) @ ''Z'')"
    using assms by (simp add: toISOString_def iso_year_def)
  then show 1: "take 10 (toISOString t) =
           pad 4 (YearFromTime t) @ ''-'' @ pad 2 (MonthFromTime t + 1) @ ''-'' @ pad 2 (DateFromTime t)"
    using y m d by (simp only: take_date)
  show "test isoDatePattern (take 10 (toISOString t))"
    unfolding 1 test_isoDatePattern using y m d by blast
qed

lemma normalizeDate_matching:
  "test isoDatePattern (trim v) \<Longrightarrow> normalizeDate parse v = Inr (trim v)"
  by (auto simp: normalizeDate_def Let_def test_isoDatePattern)

lemma normalizeDate_empty:
  "trim v = [] \<Longrightarrow> normalizeDate parse v = Inl (Error ''Date is required and cannot be empty.'')"
  by (simp add: normalizeDate_def)

lemma normalizeDate_unparsable:
  "trim v \<noteq> [] \<Longrightarrow> \<not> test isoDatePattern (trim v) \<Longrightarrow> new_Date parse (trim v) = None \<Longrightarrow>
   normalizeDate parse v = Inl (Error (''Invalid date format: '' @ quoted v @ ''.''))"
  by (simp add: normalizeDate_def)

lemma normalizeDate_parsed:
  "trim v \<noteq> [] \<Longrightarrow> \<not> test isoDatePattern (trim v) \<Longrightarrow> new_Date parse (trim v) = Some tv \<Longrightarrow>
   normalizeDate parse v = Inr (take 10 (toISOString tv))"
  by (simp add: normalizeDate_def)

lemma may_first:
  assumes "1714521600000 \<le> tv" "tv < 1714608000000"
  shows "take 10 (toISOString tv) = ''2024-05-01''"
proof -
  have "Day tv = 19844" using assms unfolding Day_def msPerDay_def by linarith
  moreover have "civil 19844 = (2024, 5, 1)" by code_simp
  ultimately have f: "YearFromTime tv = 2024" "MonthFromTime tv = 4" "DateFromTime tv = 1"
    by (simp_all add: YearFromTime_def MonthFromTime_def DateFromTime_def)
  have p: "pad 4 2024 @ ''-'' @ pad 2 5 @ ''-'' @ pad 2 1 = ''2024-05-01''" by code_simp
  from toISOString_date(1) [of tv] f p show ?thesis by simp
qed

lemma digit_not_space: "is_digit c \<Longrightarrow> \<not> is_space c"
  by (auto simp: is_digit_def is_space_def)

lemma no_space_trim: "list_all (\<lambda>c. \<not> is_space c) s \<Longrightarrow> trim s = s"
  unfolding trim_trim_by by (rule trim_by_none) (simp add: list_all_iff)

lemma trim_literals:
  "trim ''2024-05-01'' = ''2024-05-01''"
  "trim ''May 1, 2024'' = ''May 1, 2024''"
  "trim '''' = ''''"
  "trim ''not-a-date'' = ''not-a-date''"
  "trim ''2024-13-99'' = ''2024-13-99''"
  by code_simp+

lemma test_literals:
  "test isoDatePattern ''2024-05-01''"
  "\<not> test isoDatePattern ''May 1, 2024''"
  "\<not> test isoDatePattern ''not-a-date''"
  "test isoDatePattern ''2024-13-99''"
  by code_simp+

lemma new_Date_in_range:
  "parse s = Some tv \<Longrightarrow> \<bar>tv\<bar> \<le> 8640000000000000 \<Longrightarrow> new_Date parse s = Some tv"
  by (simp add: new_Date_def)

lemma new_Date_None: "parse s = None \<Longrightarrow> new_Date parse s = None"
  by (simp add: new_Date_def)

lemma normalizeDate_may_first:
  assumes "parse ''May 1, 2024'' = Some tv" "1714521600000 \<le> tv" "tv < 1714608000000"
  shows "normalizeDate parse ''May 1, 2024'' = Inr ''2024-05-01''"
proof -
  from assms have "new_Date parse (trim ''May 1, 2024'') = Some tv"
    by (simp add: trim_literals new_Date_in_range)
  then have "normalizeDate parse ''May 1, 2024'' = Inr (take 10 (toISOString tv))"
    by (intro normalizeDate_parsed) (simp_all add: trim_literals test_literals)
  with assms show ?thesis by (simp add: may_first)
qed

lemma char_of_49: "char_of (49 :: nat) = CHR ''1''"
  by code_simp

lemma pad_ten_thousand: "pad 6 10000 = ''010000''"
  by (simp add: pad_def padStart_def toString_def decimal.simps [of 10000] decimal.simps [of 1000]
      decimal.simps [of 100] decimal.simps [of 10] decimal_small char_of_48 char_of_49)

lemma pad_one: "pad 2 1 = ''01''"
  by (simp add: pad_def padStart_def toString_def decimal_small char_of_49)

lemma isoDatePattern_length: "test isoDatePattern s \<Longrightarrow> length s = 10"
  unfolding test_isoDatePattern by auto

lemma Number_snoc: "Number (s @ [c]) = 10 * Number s + (int (code_unit c) - 48)"
  by (simp add: Number_def)

lemma Number_decimal: "Number (decimal n) = int n"
proof (induction n rule: decimal.induct)
  case (1 n)
  show ?case
  proof (cases "n < 10")
    case True
    then show ?thesis by (simp add: decimal_small Number_one code_unit_digit)
  next
    case False
    then have d: "decimal n = decimal (n div 10) @ [char_of (48 + n mod 10)]"
      by (simp add: decimal.simps [of n])
    have "Number (decimal n) = 10 * int (n div 10) + int (n mod 10)"
      unfolding d Number_snoc using 1 [OF False] by (simp add: code_unit_digit)
    also have "\<dots> = int n" by (simp add: zdiv_int zmod_int)
    finally show ?thesis .
  qed
qed

lemma Number_zeros: "Number (replicate k (CHR ''0'') @ s) = Number s"
  by (induction k) (simp_all add: Number_def code_unit_def)

lemma Number_pad: "0 \<le> i \<Longrightarrow> Number (pad k i) = i"
  by (simp add: pad_def padStart_def toString_def Number_zeros Number_decimal)

lemma day_of_may_first:
  assumes "civil z = (2024, 5, 1)"
  shows "z = 19844"
proof -
  have y: "DayFromYear 2024 = 19723" "DayFromYear (2024 + 1) = 20089" "leap_day 2024 = 1"
    by (simp_all add: DayFromYear_def leap_day_def)
  from civil_calendar [of z] assms y
  have r: "19723 \<le> z" "z < 20089" "month_of_day 1 (z - 19723) = 4" "date_of_day 1 (z - 19723) = 1"
    by simp_all
  from r(3,4) have "z - 19723 = 121"
    by (simp add: date_of_day_def)
  then show ?thesis by simp
qed

lemma date_parts:
  assumes "length y = length y'" "length m = length m'"
    and "y @ ''-'' @ m @ ''-'' @ d = y' @ ''-'' @ m' @ ''-'' @ d'"
  shows "y = y' \<and> m = m' \<and> d = d'"
  using assms by simp

lemma may_first_only:
  assumes "take 10 (toISOString tv) = ''2024-05-01''"
  shows "1714521600000 \<le> tv \<and> tv < 1714608000000"
proof -
  have range: "0 \<le> YearFromTime tv \<and> YearFromTime tv \<le> 9999"
  proof (rule ccontr)
    assume "\<not> (0 \<le> YearFromTime tv \<and> YearFromTime tv \<le> 9999)"
    then have "hd (take 10 (toISOString tv)) = CHR ''-'' \<or> hd (take 10 (toISOString tv)) = CHR ''+''"
      by (simp add: toISOString_def iso_year_def)
    with assms show False by simp
  qed
  then have y0: "0 \<le> YearFromTime tv" and y1: "YearFromTime tv \<le> 9999" by simp_all
  have y: "length (pad 4 (YearFromTime tv)) = 4"
    using y0 y1 pad_shape [of "YearFromTime tv" 4] by simp
  have m: "length (pad 2 (MonthFromTime tv + 1)) = 2"
    using MonthFromTime_range [of tv] pad_shape [of "MonthFromTime tv + 1" 2] by simp
  have d: "length (pad 2 (DateFromTime tv)) = 2"
    using DateFromTime_range [of tv] pad_shape [of "DateFromTime tv" 2] by simp
  from toISOString_date(1) [OF y0 y1] assms
  have "pad 4 (YearFromTime tv) @ ''-'' @ pad 2 (MonthFromTime tv + 1) @ ''-'' @ pad 2 (DateFromTime tv) =
      ''2024'' @ ''-'' @ ''05'' @ ''-'' @ ''01''"
    by simp
  then have "pad 4 (YearFromTime tv) = ''2024'' \<and> pad 2 (MonthFromTime tv + 1) = ''05'' \<and>
    pad 2 (DateFromTime tv) = ''01''"
    by (rule date_parts [rotated 2]) (simp_all add: y m)
  then have p: "pad 4 (YearFromTime tv) = ''2024''" "pad 2 (MonthFromTime tv + 1) = ''05''"
    "pad 2 (DateFromTime tv) = ''01''"
    by simp_all
  have n: "Number ''2024'' = 2024" "Number ''05'' = 5" "Number ''01'' = 1"
    by (simp_all add: Number_def code_unit_def)
  have "YearFromTime tv = 2024"
    using Number_pad [OF y0, of 4] p(1) n(1) by simp
  moreover have "MonthFromTime tv + 1 = 5"
    using Number_pad [of "MonthFromTime tv + 1" 2] MonthFromTime_range [of tv] p(2) n(2) by simp
  moreover have "DateFromTime tv = 1"
    using Number_pad [of "DateFromTime tv" 2] DateFromTime_range [of tv] p(3) n(3) by simp
  ultimately have "civil (Day tv) = (2024, 5, 1)"
    by (simp add: YearFromTime_def MonthFromTime_def DateFromTime_def prod_eq_iff)
  then have "Day tv = 19844" by (rule day_of_may_first)
  then have "tv div 86400000 = 19844" by (simp add: Day_def msPerDay_def)
  moreover have "86400000 * (tv div 86400000) + tv mod 86400000 = tv" by simp
  moreover have "0 \<le> tv mod 86400000" "tv mod 86400000 < 86400000" by simp_all
  ultimately show ?thesis by linarith
qed

lemma normalizeDate_may_first_iff:
  assumes "parse ''May 1, 2024'' = Some tv"
  shows "(normalizeDate parse ''May 1, 2024'' = Inr ''2024-05-01'') =
         (1714521600000 \<le> tv \<and> tv < 1714608000000)"
proof
  assume r: "normalizeDate parse ''May 1, 2024'' = Inr ''2024-05-01''"
  have n: "trim ''May 1, 2024'' \<noteq> []" "\<not> test isoDatePattern (trim ''May 1, 2024'')"
    by (simp_all add: trim_literals test_literals)
  show "1714521600000 \<le> tv \<and> tv < 1714608000000"
  proof (cases "new_Date parse (trim ''May 1, 2024'')")
    case None
    from normalizeDate_unparsable [OF n None] r show ?thesis by simp
  next
    case (Some tv')
    with assms have "tv' = tv" by (simp add: new_Date_def trim_literals split: if_splits)
    with normalizeDate_parsed [OF n Some] r have "take 10 (toISOString tv) = ''2024-05-01''"
      by simp
    then show ?thesis by (rule may_first_only)
  qed
next
  assume "1714521600000 \<le> tv \<and> tv < 1714608000000"
  with assms show "normalizeDate parse ''May 1, 2024'' = Inr ''2024-05-01''"
    by (simp add: normalizeDate_may_first)
qed

lemma normalizeDate_local_time_host:
  "(normalizeDate (local_time_host offset) ''May 1, 2024'' = Inr ''2024-05-01'') =
   (- 1440 < offset \<and> offset \<le> 0)"
proof -
  have "local_time_host offset ''May 1, 2024'' = Some (1714521600000 - 60000 * offset)"
    by (simp add: local_time_host_def)
  from normalizeDate_may_first_iff [of "local_time_host offset" "1714521600000 - 60000 * offset"] this
  show ?thesis by auto
qed

lemma normalizeDate_date:
  assumes "trim v \<noteq> []" "\<not> test isoDatePattern (trim v)" "new_Date parse (trim v) = Some tv"
    and "0 \<le> YearFromTime tv" "YearFromTime tv \<le> 9999"
  shows "normalizeDate parse v =
           Inr (pad 4 (YearFromTime tv) @ ''-'' @ pad 2 (MonthFromTime tv + 1) @ ''-'' @
                pad 2 (DateFromTime tv))"
    and "test isoDatePattern
           (pad 4 (YearFromTime tv) @ ''-'' @ pad 2 (MonthFromTime tv + 1) @ ''-'' @
            pad 2 (DateFromTime tv))"
  using normalizeDate_parsed [OF assms(1-3)] toISOString_date [OF assms(4,5)] by simp_all

text \<open>
  Beyond the year 9999 the ISO rendering starts with a sign and six digits of the year, and
  its first ten characters are no date: the instant 253402300800000 ms is
  +010000-01-01T00:00:00.000Z. The statement of claim C1 is about the years 0 to 9999.
\<close>

lemma normalizeDate_expanded_year:
  "normalizeDate (\<lambda>s. Some 253402300800000) ''+010000-01-01T00:00:00Z'' = Inr ''+010000-01''"
proof -
  let ?v = "''+010000-01-01T00:00:00Z''"
  have "list_all (\<lambda>c. \<not> is_space c) ?v" by (simp add: is_space_def code_unit_def)
  then have t: "trim ?v = ?v" by (rule no_space_trim)
  have n: "\<not> test isoDatePattern ?v" using isoDatePattern_length [of ?v] by auto
  have d: "new_Date (\<lambda>s. Some 253402300800000) ?v = Some 253402300800000"
    by (simp add: new_Date_def)
  have "civil (Day 253402300800000) = (10000, 1, 1)" by code_simp
  then have "take 10 (toISOString 253402300800000) = ''+010000-01''"
    by (simp add: toISOString_def iso_year_def YearFromTime_def MonthFromTime_def pad_ten_thousand pad_one)
  with normalizeDate_parsed [of ?v "\<lambda>s. Some 253402300800000" 253402300800000] t n d
  show ?thesis by simp
qed

text \<open>
  Claim C1, as amended. With \<open>parse\<close> the date parser of the host: a trimmed input of the
  form YYYY-MM-DD is returned as it is; an empty trimmed input, and one that the host does not
  parse, fail with an error; every other input is parsed, and when the UTC year of the parsed
  instant is from 0 to 9999 the result is the UTC calendar date YYYY-MM-DD of the instant.
  "2024-05-01" maps to itself, the empty string fails, "not-a-date" fails on a host that does
  not parse it, and "May 1, 2024" maps to "2024-05-01" exactly when the host reads it as an
  instant of 1 May 2024 in UTC: for a host that reads it as its local midnight, when the host
  is at UTC or less than a day behind it.
\<close>

theorem normalizeDate_cases:
  "(test isoDatePattern (trim v) \<longrightarrow> normalizeDate parse v = Inr (trim v)) \<and>
   (trim v = [] \<longrightarrow>
      normalizeDate parse v = Inl (Error ''Date is required and cannot be empty.'')) \<and>
   (trim v \<noteq> [] \<and> \<not> test isoDatePattern (trim v) \<and> new_Date parse (trim v) = None \<longrightarrow>
      normalizeDate parse v = Inl (Error (''Invalid date format: '' @ quoted v @ ''.''))) \<and>
   (\<forall>tv. trim v \<noteq> [] \<and> \<not> test isoDatePattern (trim v) \<and> new_Date parse (trim v) = Some tv \<and>
         0 \<le> YearFromTime tv \<and> YearFromTime tv \<le> 9999 \<longrightarrow>
      normalizeDate parse v =
        Inr (pad 4 (YearFromTime tv) @ ''-'' @ pad 2 (MonthFromTime tv + 1) @ ''-'' @
             pad 2 (DateFromTime tv)) \<and>
      test isoDatePattern
        (pad 4 (YearFromTime tv) @ ''-'' @ pad 2 (MonthFromTime tv + 1) @ ''-'' @
         pad 2 (DateFromTime tv))) \<and>
   normalizeDate parse ''2024-05-01'' = Inr ''2024-05-01'' \<and>
   (\<forall>tv. parse ''May 1, 2024'' = Some tv \<longrightarrow>
      (normalizeDate parse ''May 1, 2024'' = Inr ''2024-05-01'') =
      (1714521600000 \<le> tv \<and> tv < 1714608000000)) \<and>
   (normalizeDate (local_time_host offset) ''May 1, 2024'' = Inr ''2024-05-01'') =
     (- 1440 < offset \<and> offset \<le> 0) \<and>
   normalizeDate parse '''' = Inl (Error ''Date is required and cannot be empty.'') \<and>
   (parse ''not-a-date'' = None \<longrightarrow>
      normalizeDate parse ''not-a-date'' =
        Inl (Error (''Invalid date format: '' @ quoted ''not-a-date'' @ ''.'')))"
proof (intro conjI allI impI; (elim conjE)?)
  show "normalizeDate parse ''2024-05-01'' = Inr ''2024-05-01''"
    using normalizeDate_matching [of "''2024-05-01''" parse] by (simp add: trim_literals test_literals)
  show "normalizeDate parse '''' = Inl (Error ''Date is required and cannot be empty.'')"
    by (simp add: normalizeDate_empty trim_literals)
  show "(normalizeDate (local_time_host offset) ''May 1, 2024'' = Inr ''2024-05-01'') =
     (- 1440 < offset \<and> offset \<le> 0)"
    by (rule normalizeDate_local_time_host)
next
  assume "parse ''not-a-date'' = None"
  then show "normalizeDate parse ''not-a-date'' =
        Inl (Error (''Invalid date format: '' @ quoted ''not-a-date'' @ ''.''))"
    using normalizeDate_unparsable [of "''not-a-date''" parse]
    by (simp add: trim_literals test_literals new_Date_None)
next
  fix tv assume "parse ''May 1, 2024'' = Some tv"
  then show "(normalizeDate parse ''May 1, 2024'' = Inr ''2024-05-01'') =
      (1714521600000 \<le> tv \<and> tv < 1714608000000)"
    by (rule normalizeDate_may_first_iff)
next
  fix tv
  assume a: "trim v \<noteq> []" "\<not> test isoDatePattern (trim v)" "new_Date parse (trim v) = Some tv"
    "0 \<le> YearFromTime tv" "YearFromTime tv \<le> 9999"
  from a show "normalizeDate parse v =
        Inr (pad 4 (YearFromTime tv) @ ''-'' @ pad 2 (MonthFromTime tv + 1) @ ''-'' @
             pad 2 (DateFromTime tv))"
    by (rule normalizeDate_date)
  from a show "test isoDatePattern
        (pad 4 (YearFromTime tv) @ ''-'' @ pad 2 (MonthFromTime tv + 1) @ ''-'' @
         pad 2 (DateFromTime tv))"
    by (rule normalizeDate_date)
qed (simp_all add: normalizeDate_matching normalizeDate_empty normalizeDate_unparsable)

theorem normalizeDate_cases_witness:
  "local_time_host 0 ''May 1, 2024'' = Some 1714521600000 \<and>
   new_Date (local_time_host 0) (trim ''May 1, 2024'') = Some 1714521600000 \<and>
   trim ''May 1, 2024'' \<noteq> [] \<and> \<not> test isoDatePattern (trim ''May 1, 2024'') \<and>
   YearFromTime 1714521600000 = 2024 \<and>
   test isoDatePattern
     (pad 4 (YearFromTime 1714521600000) @ ''-'' @ pad 2 (MonthFromTime 1714521600000 + 1) @
      ''-'' @ pad 2 (DateFromTime 1714521600000)) \<and>
   normalizeDate (local_time_host 0) ''May 1, 2024'' = Inr ''2024-05-01'' \<and>
   test isoDatePattern (trim ''  2024-05-01 '') \<and>
   normalizeDate (local_time_host 0) ''  2024-05-01 '' = Inr ''2024-05-01''"
proof -
  have p: "local_time_host 0 ''May 1, 2024'' = Some 1714521600000"
    by (simp add: local_time_host_def)
  have d: "new_Date (local_time_host 0) (trim ''May 1, 2024'') = Some 1714521600000"
    by (simp add: trim_literals new_Date_def local_time_host_def)
  have n: "trim ''May 1, 2024'' \<noteq> []" "\<not> test isoDatePattern (trim ''May 1, 2024'')"
    by (simp_all add: trim_literals test_literals)
  have y: "YearFromTime 1714521600000 = 2024" by code_simp
  then have r: "0 \<le> YearFromTime 1714521600000" "YearFromTime 1714521600000 \<le> 9999" by simp_all
  have t: "trim ''  2024-05-01 '' = ''2024-05-01''" by code_simp
  have m: "test isoDatePattern (trim ''  2024-05-01 '')" unfolding t by code_simp
  from normalizeDate_cases [of "''May 1, 2024''" "local_time_host 0"] d n r
  have 1: "test isoDatePattern
     (pad 4 (YearFromTime 1714521600000) @ ''-'' @ pad 2 (MonthFromTime 1714521600000 + 1) @
      ''-'' @ pad 2 (DateFromTime 1714521600000))"
    by blast
  from normalizeDate_cases [of "''May 1, 2024''" "local_time_host 0"] p
  have 2: "normalizeDate (local_time_host 0) ''May 1, 2024'' = Inr ''2024-05-01''" by simp
  from normalizeDate_cases [of "''  2024-05-01 ''" "local_time_host 0"] m
  have 3: "normalizeDate (local_time_host 0) ''  2024-05-01 '' = Inr ''2024-05-01''"
    by (simp add: t)
  from p d n y 1 2 m 3 show ?thesis by (intro conjI)
qed

text \<open>
  The example of claim C1 as the claim states it fails on a host two hours ahead of UTC: local
  midnight of 1 May 2024 is 22:00 of 30 April in UTC.
\<close>

theorem normalizeDate_may_first_counterexample:
  "normalizeDate (local_time_host 120) ''May 1, 2024'' = Inr ''2024-04-30'' \<and>
   normalizeDate (local_time_host 120) ''May 1, 2024'' \<noteq> Inr ''2024-05-01''"
  by code_simp

text \<open>
  Claim C10. Whatever the host's parser does, a trimmed input of four digits, a hyphen, two
  digits, a hyphen and two digits is returned unchanged, with no check that it names a date of
  the calendar: "2024-13-99" is returned as it is. The parser is consulted only for inputs
  that do not have this form.
\<close>

theorem normalizeDate_pattern_unchecked:
  "(test isoDatePattern (trim v) \<longrightarrow>
      (\<forall>parse. normalizeDate parse v = Inr (trim v))) \<and>
   (\<forall>y m d. trim v = y @ ''-'' @ m @ ''-'' @ d \<and> length y = 4 \<and> list_all is_digit y \<and>
      length m = 2 \<and> list_all is_digit m \<and> length d = 2 \<and> list_all is_digit d \<longrightarrow>
      (\<forall>parse. normalizeDate parse v = Inr (trim v))) \<and>
   (\<forall>parse. normalizeDate parse ''2024-13-99'' = Inr ''2024-13-99'')"
proof -
  have a: "normalizeDate parse ''2024-13-99'' = Inr ''2024-13-99''" for parse
    using normalizeDate_matching [of "''2024-13-99''" parse] by (simp add: trim_literals test_literals)
  have b: "normalizeDate parse v = Inr (trim v)"
    if "trim v = y @ ''-'' @ m @ ''-'' @ d" "length y = 4" "list_all is_digit y"
      "length m = 2" "list_all is_digit m" "length d = 2" "list_all is_digit d" for y m d parse
  proof -
    from that have "test isoDatePattern (trim v)" unfolding test_isoDatePattern by blast
    then show ?thesis by (rule normalizeDate_matching)
  qed
  show ?thesis using a b normalizeDate_matching by blast
qed

theorem normalizeDate_pattern_unchecked_witness:
  "test isoDatePattern (trim '' 2024-13-99'') \<and>
   normalizeDate (\<lambda>s. None) '' 2024-13-99'' = Inr ''2024-13-99'' \<and>
   normalizeDate (\<lambda>s. Some 0) '' 2024-13-99'' = Inr ''2024-13-99''"
proof -
  have t: "trim '' 2024-13-99'' = ''2024-13-99''" by code_simp
  have m: "test isoDatePattern ''2024-13-99''" by code_simp
  from normalizeDate_pattern_unchecked [of "'' 2024-13-99''"] t m
  have "\<forall>parse. normalizeDate parse '' 2024-13-99'' = Inr ''2024-13-99''" by simp
  with t m show ?thesis by simp
qed

section \<open>The pre-save hook of the Event schema\<close>

text \<open>
  The three fields the hook assigns have the schema option \<^verbatim>\<open>trim\<close>, whose setter runs on
  every assignment. It leaves the assigned values as they are (\<open>trim_slugify\<close>,
  \<open>trim_normalizeDate\<close>, \<open>trim_normalizeTime\<close>), so the model assigns them directly.
\<close>

lemma trim_by_idem: "trim_by p (trim_by p s) = trim_by p s"
  by (rule trim_by_weaker) simp

lemma trim_trim: "trim (trim s) = trim s"
  by (simp add: trim_trim_by trim_by_idem)

lemma pad_chars:
  assumes "0 \<le> i"
  shows "list_all is_digit (pad k i)"
proof -
  have z: "is_digit (CHR ''0'')" by (simp add: is_digit_def code_unit_def)
  have "list_all is_digit (decimal (nat i))" by (rule decimal_digits)
  with assms z show ?thesis by (auto simp: pad_def padStart_def toString_def list_all_iff)
qed

lemma pad_no_space: "0 \<le> i \<Longrightarrow> list_all (\<lambda>c. \<not> is_space c) (pad k i)"
  using pad_chars [of i k] by (auto simp: list_all_iff dest: digit_not_space)

lemma iso_year_no_space: "list_all (\<lambda>c. \<not> is_space c) (iso_year y)"
proof -
  have "\<not> is_space (CHR ''-'')" "\<not> is_space (CHR ''+'')"
    by (simp_all add: is_space_def code_unit_def)
  then show ?thesis by (simp add: iso_year_def pad_no_space)
qed

lemma toISOString_no_space: "list_all (\<lambda>c. \<not> is_space c) (toISOString t)"
proof -
  have p: "\<not> is_space (CHR ''-'')" "\<not> is_space (CHR ''T'')" "\<not> is_space (CHR '':'')"
    "\<not> is_space (CHR ''.'')" "\<not> is_space (CHR ''Z'')"
    by (simp_all add: is_space_def code_unit_def)
  have "0 \<le> MonthFromTime t + 1" using MonthFromTime_range [of t] by simp
  moreover have "0 \<le> DateFromTime t" using DateFromTime_range [of t] by simp
  moreover have "0 \<le> HourFromTime t" "0 \<le> MinFromTime t" "0 \<le> SecFromTime t" "0 \<le> msFromTime t"
    by (simp_all add: HourFromTime_def MinFromTime_def SecFromTime_def msFromTime_def)
  ultimately show ?thesis
    by (simp add: toISOString_def iso_year_no_space pad_no_space p)
qed

lemma trim_normalizeDate:
  assumes "normalizeDate parse v = Inr r"
  shows "trim r = r"
proof -
  from assms consider "r = trim v" | tv where "r = take 10 (toISOString tv)"
    by (auto simp: normalizeDate_def Let_def split: if_splits option.splits)
  then show ?thesis
  proof cases
    case 1
    then show ?thesis by (simp add: trim_trim)
  next
    case 2
    have "list_all (\<lambda>c. \<not> is_space c) (take 10 (toISOString tv))"
      using toISOString_no_space [of tv] by (auto simp: list_all_iff dest: in_set_takeD)
    with 2 show ?thesis by (simp add: no_space_trim)
  qed
qed

lemma trim_normalizeTime:
  assumes "normalizeTime v = Inr r"
  shows "trim r = r"
proof -
  have "\<exists>h m. trim v = h @ '':'' @ m \<and> time_fields h m \<and> Number h \<le> 23 \<and> Number m \<le> 59"
    using normalizeTime_failure [of v] assms by auto
  then obtain h m where hm: "trim v = h @ '':'' @ m" "time_fields h m" "Number h \<le> 23" "Number m \<le> 59"
    by blast
  with normalizeTime_fields [OF hm(1,2)] assms
  have r: "r = padStart 2 (CHR ''0'') h @ '':'' @ m" by simp
  have "\<not> is_space (CHR ''0'')" "\<not> is_space (CHR '':'')"
    by (simp_all add: is_space_def code_unit_def)
  with hm(2) have "list_all (\<lambda>c. \<not> is_space c) r"
    unfolding r by (auto simp: time_fields_def padStart_def list_all_iff dest: digit_not_space)
  then show ?thesis by (rule no_space_trim)
qed


lemma eventSchema_pre_save_slug:
  "slug (obj (fst (eventSchema_pre_save track parse this))) =
     (if isModified ''title'' this then slugify (title (obj this)) else slug (obj this))"
  by (simp add: eventSchema_pre_save_def Let_def split: sum.splits)

lemma eventSchema_pre_save_title:
  "title (obj (fst (eventSchema_pre_save track parse this))) = title (obj this)"
  by (simp add: eventSchema_pre_save_def Let_def split: sum.splits)

lemma eventSchema_pre_save_ok:
  assumes "normalizeDate parse (date (obj this)) = Inr d" "normalizeTime (time (obj this)) = Inr t"
  shows "snd (eventSchema_pre_save track parse this) = None"
    and "date (obj (fst (eventSchema_pre_save track parse this))) = d"
    and "time (obj (fst (eventSchema_pre_save track parse this))) = t"
  using assms by (simp_all add: eventSchema_pre_save_def Let_def)

lemma eventSchema_pre_save_bad_date:
  assumes "normalizeDate parse (date (obj this)) = Inl e"
  shows "snd (eventSchema_pre_save track parse this) = Some e"
    and "date (obj (fst (eventSchema_pre_save track parse this))) = date (obj this)"
    and "time (obj (fst (eventSchema_pre_save track parse this))) = time (obj this)"
  using assms by (simp_all add: eventSchema_pre_save_def Let_def)

lemma eventSchema_pre_save_bad_time:
  assumes "normalizeDate parse (date (obj this)) = Inr d" "normalizeTime (time (obj this)) = Inl e"
  shows "snd (eventSchema_pre_save track parse this) = Some e"
    and "date (obj (fst (eventSchema_pre_save track parse this))) = d"
    and "time (obj (fst (eventSchema_pre_save track parse this))) = time (obj this)"
  using assms by (simp_all add: eventSchema_pre_save_def Let_def)

lemma eventSchema_pre_save_marks:
  "snd (eventSchema_pre_save track' parse (this\<lparr>modifiedPaths := M\<rparr>)) =
     snd (eventSchema_pre_save track parse this)"
  "date (obj (fst (eventSchema_pre_save track' parse (this\<lparr>modifiedPaths := M\<rparr>)))) =
     date (obj (fst (eventSchema_pre_save track parse this)))"
  "time (obj (fst (eventSchema_pre_save track' parse (this\<lparr>modifiedPaths := M\<rparr>)))) =
     time (obj (fst (eventSchema_pre_save track parse this)))"
  by (simp_all add: eventSchema_pre_save_def Let_def isModified_def split: sum.splits)

text \<open>
  Claim C6. The hook sets \<open>slug\<close> to \<open>slugify title\<close> when the title is marked as modified
  (created or changed) and leaves it unchanged otherwise, also when the hook fails later. Date
  and time are normalised on every run of the hook: when both normalise the hook succeeds and
  stores the normal forms, when one fails the hook fails with its error, and neither the
  outcome nor the stored date and time depend on which paths are marked as modified, nor on
  how Mongoose marks the paths the hook assigns.
\<close>

theorem eventSchema_pre_save_effect:
  "slug (obj (fst (eventSchema_pre_save track parse this))) =
     (if isModified ''title'' this then slugify (title (obj this)) else slug (obj this)) \<and>
   title (obj (fst (eventSchema_pre_save track parse this))) = title (obj this) \<and>
   (\<forall>d t. normalizeDate parse (date (obj this)) = Inr d \<and> normalizeTime (time (obj this)) = Inr t \<longrightarrow>
      snd (eventSchema_pre_save track parse this) = None \<and>
      date (obj (fst (eventSchema_pre_save track parse this))) = d \<and>
      time (obj (fst (eventSchema_pre_save track parse this))) = t) \<and>
   (\<forall>e. normalizeDate parse (date (obj this)) = Inl e \<longrightarrow>
      snd (eventSchema_pre_save track parse this) = Some e \<and>
      date (obj (fst (eventSchema_pre_save track parse this))) = date (obj this) \<and>
      time (obj (fst (eventSchema_pre_save track parse this))) = time (obj this)) \<and>
   (\<forall>d e. normalizeDate parse (date (obj this)) = Inr d \<and> normalizeTime (time (obj this)) = Inl e \<longrightarrow>
      snd (eventSchema_pre_save track parse this) = Some e \<and>
      date (obj (fst (eventSchema_pre_save track parse this))) = d \<and>
      time (obj (fst (eventSchema_pre_save track parse this))) = time (obj this)) \<and>
   (\<forall>M track'. snd (eventSchema_pre_save track' parse (this\<lparr>modifiedPaths := M\<rparr>)) =
          snd (eventSchema_pre_save track parse this) \<and>
        date (obj (fst (eventSchema_pre_save track' parse (this\<lparr>modifiedPaths := M\<rparr>)))) =
          date (obj (fst (eventSchema_pre_save track parse this))) \<and>
        time (obj (fst (eventSchema_pre_save track' parse (this\<lparr>modifiedPaths := M\<rparr>)))) =
          time (obj (fst (eventSchema_pre_save track parse this))))"
proof (intro conjI allI impI; (elim conjE)?)
  fix M track'
  show "snd (eventSchema_pre_save track' parse (this\<lparr>modifiedPaths := M\<rparr>)) =
          snd (eventSchema_pre_save track parse this)"
    by (rule eventSchema_pre_save_marks)
  show "date (obj (fst (eventSchema_pre_save track' parse (this\<lparr>modifiedPaths := M\<rparr>)))) =
          date (obj (fst (eventSchema_pre_save track parse this)))"
    by (rule eventSchema_pre_save_marks)
  show "time (obj (fst (eventSchema_pre_save track' parse (this\<lparr>modifiedPaths := M\<rparr>)))) =
          time (obj (fst (eventSchema_pre_save track parse this)))"
    by (rule eventSchema_pre_save_marks)
qed (simp_all add: eventSchema_pre_save_slug eventSchema_pre_save_title eventSchema_pre_save_ok
      eventSchema_pre_save_bad_date eventSchema_pre_save_bad_time)

theorem eventSchema_pre_save_effect_witness:
  "normalizeDate (\<lambda>s. None) '' 2024-05-01'' = Inr ''2024-05-01'' \<and>
   normalizeTime ''9:05'' = Inr ''09:05'' \<and>
   eventSchema_pre_save mark_changed (\<lambda>s. None)
     \<lparr>obj = \<lparr>title = ''New Title'', slug = ''old-title'', date = '' 2024-05-01'', time = ''9:05''\<rparr>,
      modifiedPaths = {}\<rparr> =
   (\<lparr>obj = \<lparr>title = ''New Title'', slug = ''old-title'', date = ''2024-05-01'', time = ''09:05''\<rparr>,
     modifiedPaths = {''date'', ''time''}\<rparr>, None)"
proof -
  let ?doc = "\<lparr>obj = \<lparr>title = ''New Title'', slug = ''old-title'', date = '' 2024-05-01'', time = ''9:05''\<rparr>,
      modifiedPaths = {}\<rparr> :: event document"
  let ?r = "eventSchema_pre_save mark_changed (\<lambda>s. None) ?doc"
  have d: "normalizeDate (\<lambda>s. None) '' 2024-05-01'' = Inr ''2024-05-01''" by code_simp
  have t: "normalizeTime ''9:05'' = Inr ''09:05''" by code_simp
  have m: "\<not> isModified ''title'' ?doc" by (simp add: isModified_def)
  from eventSchema_pre_save_effect [of mark_changed "\<lambda>s. None" ?doc] d t m
  have "slug (obj (fst ?r)) = ''old-title''" "title (obj (fst ?r)) = ''New Title''"
    "snd ?r = None" "date (obj (fst ?r)) = ''2024-05-01''" "time (obj (fst ?r)) = ''09:05''"
    by simp_all
  moreover have "modifiedPaths (fst ?r) = {''date'', ''time''}"
    by (simp add: eventSchema_pre_save_def Let_def isModified_def d t mark_changed_def
        path_value_def insert_commute)
  ultimately have "?r = (\<lparr>obj = \<lparr>title = ''New Title'', slug = ''old-title'', date = ''2024-05-01'', time = ''09:05''\<rparr>,
     modifiedPaths = {''date'', ''time''}\<rparr>, None)"
    by (cases ?r) (auto intro!: document.equality event.equality)
  with d t show ?thesis by simp
qed

section \<open>The Booking schema\<close>

lemma test_emailRegex:
  "test emailRegex s \<longleftrightarrow>
     (\<exists>l d t. s = l @ ''@'' @ d @ ''.'' @ t \<and> l \<noteq> [] \<and> d \<noteq> [] \<and> t \<noteq> [] \<and>
        list_all not_space_or_at (l @ d @ t))"
  unfolding test_lang emailRegex_def
  by (simp add: conc_iff lang_Plus_Class lang_Chr del: lang.simps(3)) blast

lemma email_validate_iff: "email_validate v = Inr v \<longleftrightarrow> test emailRegex v"
  by (auto simp: email_validate_def test_emailRegex)

lemma email_validate_fail:
  "\<not> test emailRegex v \<Longrightarrow> \<exists>msg. email_validate v = Inl (ValidatorError ''email'' msg)"
  by (simp add: email_validate_def)

lemma email_set_orders: "email_set raw = toLowerCase (trim raw)"
  by (simp add: email_set_def toLowerCase_trim)

lemma booking_email_examples:
  "booking_email ''a@b.com'' = Inr ''a@b.com''"
  "booking_email ''A@B.COM'' = Inr ''a@b.com''"
  "booking_email ''not-an-email'' = Inl (ValidatorError ''email'' ''Invalid email address.'')"
  by code_simp+

text \<open>
  Claim C9, as amended. The email is validated after the setters have trimmed and lower-cased
  it: validation succeeds exactly when the trimmed, lower-cased input has a non-empty local
  part, an at sign, a non-empty domain, a dot and a non-empty suffix, all free of white space
  and of further at signs; it fails with a validation error on the path otherwise. The stored
  value is the input trimmed and lower-cased (in either order), so "a@b.com" is stored
  unchanged, "A@B.COM" is stored as "a@b.com" and "not-an-email" fails.
\<close>

theorem booking_email_contract:
  "(booking_email raw = Inr (email_set raw)) = test emailRegex (email_set raw) \<and>
   (\<not> test emailRegex (email_set raw) \<longrightarrow>
      (\<exists>msg. booking_email raw = Inl (ValidatorError ''email'' msg))) \<and>
   test emailRegex (email_set raw) =
     (\<exists>l d t. email_set raw = l @ ''@'' @ d @ ''.'' @ t \<and> l \<noteq> [] \<and> d \<noteq> [] \<and> t \<noteq> [] \<and>
        list_all (\<lambda>c. \<not> is_space c \<and> c \<noteq> CHR ''@'') (l @ d @ t)) \<and>
   email_set raw = trim (toLowerCase raw) \<and>
   email_set raw = toLowerCase (trim raw) \<and>
   booking_email ''a@b.com'' = Inr ''a@b.com'' \<and>
   booking_email ''A@B.COM'' = Inr ''a@b.com'' \<and>
   booking_email ''not-an-email'' = Inl (ValidatorError ''email'' ''Invalid email address.'')"
proof -
  have "not_space_or_at = (\<lambda>c. \<not> is_space c \<and> c \<noteq> CHR ''@'')"
    by (simp add: fun_eq_iff not_space_or_at_def)
  then have "test emailRegex (email_set raw) =
     (\<exists>l d t. email_set raw = l @ ''@'' @ d @ ''.'' @ t \<and> l \<noteq> [] \<and> d \<noteq> [] \<and> t \<noteq> [] \<and>
        list_all (\<lambda>c. \<not> is_space c \<and> c \<noteq> CHR ''@'') (l @ d @ t))"
    using test_emailRegex [of "email_set raw"] by simp
  moreover have "(booking_email raw = Inr (email_set raw)) = test emailRegex (email_set raw)"
    by (simp add: booking_email_def email_validate_iff)
  moreover have "\<not> test emailRegex (email_set raw) \<longrightarrow>
      (\<exists>msg. booking_email raw = Inl (ValidatorError ''email'' msg))"
    by (simp add: booking_email_def email_validate_fail)
  moreover have "email_set raw = trim (toLowerCase raw)" by (simp add: email_set_def)
  moreover note email_set_orders [of raw] booking_email_examples
  ultimately show ?thesis by blast
qed

theorem booking_email_contract_witness:
  "email_set ''  Ann@Example.ORG '' = ''ann@example.org'' \<and>
   test emailRegex ''ann@example.org'' \<and>
   booking_email ''  Ann@Example.ORG '' = Inr ''ann@example.org'' \<and>
   \<not> test emailRegex (email_set ''a b@c.d'') \<and>
   (\<exists>msg. booking_email ''a b@c.d'' = Inl (ValidatorError ''email'' msg))"
proof -
  have s: "email_set ''  Ann@Example.ORG '' = ''ann@example.org''" by code_simp
  have m: "test emailRegex ''ann@example.org''" by code_simp
  have n: "\<not> test emailRegex (email_set ''a b@c.d'')" by code_simp
  from booking_email_contract [of "''  Ann@Example.ORG ''"] s m
  have 1: "booking_email ''  Ann@Example.ORG '' = Inr ''ann@example.org''" by simp
  from booking_email_contract [of "''a b@c.d''"] n
  have 2: "\<exists>msg. booking_email ''a b@c.d'' = Inl (ValidatorError ''email'' msg)" by blast
  from s m n 1 2 show ?thesis by simp
qed

text \<open>
  Claim C9 as stated, with the raw input matched against the shape, fails on an input with
  white space around it: the input does not match, yet validation succeeds.
\<close>

theorem booking_email_raw_counterexample:
  "\<not> test emailRegex '' a@b.com '' \<and> booking_email '' a@b.com '' = Inr ''a@b.com''"
  by code_simp

lemma bookingSchema_pre_save_unmodified:
  "\<not> isModified ''eventId'' this \<Longrightarrow> bookingSchema_pre_save st this = None"
  by (simp add: bookingSchema_pre_save_def)

lemma bookingSchema_pre_save_modified:
  "isModified ''eventId'' this \<Longrightarrow>
   bookingSchema_pre_save st this =
     (case fault st of
        Some m \<Rightarrow> Some (Rejected m)
      | None \<Rightarrow>
          if eventId (obj this) \<in> events st then None
          else Some (Thrown (Error ''Cannot create booking: referenced event does not exist.'')))"
  by (simp add: bookingSchema_pre_save_def EventModel_exists_def split: option.splits)

text \<open>
  Claim C4. The hook fails with its own error, the reference that is not found, exactly when
  \<open>eventId\<close> is marked as modified (newly assigned or changed) and the lookup reports that no
  event of that identity is stored. With \<open>eventId\<close> unmodified the hook succeeds without
  consulting storage, whatever storage holds, also after the referenced event was deleted.
  The error is distinct from every validation error of a path; a lookup that the driver
  rejects fails the hook with the driver's error instead.
\<close>

theorem bookingSchema_pre_save_reference:
  "(bookingSchema_pre_save st this =
      Some (Thrown (Error ''Cannot create booking: referenced event does not exist.''))) =
     (isModified ''eventId'' this \<and> EventModel_exists st (eventId (obj this)) = Inr False) \<and>
   (fault st = None \<longrightarrow>
      (bookingSchema_pre_save st this =
         Some (Thrown (Error ''Cannot create booking: referenced event does not exist.''))) =
      (isModified ''eventId'' this \<and> eventId (obj this) \<notin> events st)) \<and>
   (isModified ''eventId'' this \<and> EventModel_exists st (eventId (obj this)) = Inr True \<longrightarrow>
      bookingSchema_pre_save st this = None) \<and>
   (\<forall>m. isModified ''eventId'' this \<and> fault st = Some m \<longrightarrow>
      bookingSchema_pre_save st this = Some (Rejected m)) \<and>
   (\<not> isModified ''eventId'' this \<longrightarrow>
      (\<forall>st'. bookingSchema_pre_save st' this = None) \<and>
      bookingSchema_pre_save (st\<lparr>events := events st - {eventId (obj this)}\<rparr>) this = None) \<and>
   (\<forall>path msg. Thrown (Error ''Cannot create booking: referenced event does not exist.'') \<noteq>
      Thrown (ValidatorError path msg))"
  by (cases "isModified ''eventId'' this")
    (auto simp: bookingSchema_pre_save_unmodified bookingSchema_pre_save_modified
      EventModel_exists_def split: option.splits)

theorem bookingSchema_pre_save_reference_witness:
  "bookingSchema_pre_save \<lparr>events = {1, 2}, fault = None\<rparr>
     \<lparr>obj = \<lparr>eventId = 3, email = ''a@b.com''\<rparr>, modifiedPaths = {''eventId'', ''email''}\<rparr> =
     Some (Thrown (Error ''Cannot create booking: referenced event does not exist.'')) \<and>
   bookingSchema_pre_save \<lparr>events = {1, 2} - {2}, fault = None\<rparr>
     \<lparr>obj = \<lparr>eventId = 2, email = ''c@d.org''\<rparr>, modifiedPaths = {''email''}\<rparr> = None"
proof -
  let ?st = "\<lparr>events = {1, 2}, fault = None\<rparr> :: storage"
  let ?new = "\<lparr>obj = \<lparr>eventId = 3, email = ''a@b.com''\<rparr>, modifiedPaths = {''eventId'', ''email''}\<rparr> :: booking document"
  let ?old = "\<lparr>obj = \<lparr>eventId = 2, email = ''c@d.org''\<rparr>, modifiedPaths = {''email''}\<rparr> :: booking document"
  have a: "fault ?st = None" "isModified ''eventId'' ?new" "eventId (obj ?new) \<notin> events ?st"
    by (simp_all add: isModified_def)
  have b: "\<not> isModified ''eventId'' ?old" by (simp add: isModified_def)
  from bookingSchema_pre_save_reference [of ?st ?new] a
  have 1: "bookingSchema_pre_save ?st ?new =
     Some (Thrown (Error ''Cannot create booking: referenced event does not exist.''))" by blast
  from bookingSchema_pre_save_reference [of ?st ?old] b
  have "bookingSchema_pre_save (?st\<lparr>events := events ?st - {eventId (obj ?old)}\<rparr>) ?old = None" by blast
  then have 2: "bookingSchema_pre_save \<lparr>events = {1, 2} - {2}, fault = None\<rparr> ?old = None" by simp
  from 1 2 show ?thesis by simp
qed

section \<open>The connection manager\<close>

lemma queue_inv_initial: "queue_inv initial"
  by (simp add: queue_inv_def initial_def)

lemma queue_inv_call: "queue_inv s \<Longrightarrow> queue_inv (connectToDatabase c s)"
  by (auto simp: queue_inv_def connectToDatabase_def await_def start_attempt_def pending_def
      split: option.splits)

lemma queue_inv_settle: "queue_inv s \<Longrightarrow> queue_inv (settle p r s)"
  by (auto simp: queue_inv_def settle_def pending_def)

lemma queue_inv_continue: "queue_inv s \<Longrightarrow> queue_inv (continue s)"
  by (auto simp: queue_inv_def continue_def resume_def pending_def
      split: list.splits option.splits sum.splits)

lemma queue_inv_step: "queue_inv s \<Longrightarrow> queue_inv (step a s)"
  by (cases a) (simp_all add: queue_inv_call queue_inv_settle queue_inv_continue)

lemma queue_inv_run: "queue_inv s \<Longrightarrow> queue_inv (run acts s)"
  unfolding run_def by (induction acts arbitrary: s) (simp_all add: queue_inv_step)

lemma reachable_inv: "reachable s \<Longrightarrow> queue_inv s"
  by (auto simp: reachable_def queue_inv_run queue_inv_initial)

lemma reachable_run: "reachable (run acts initial)"
  by (auto simp: reachable_def)

lemma reachable_step: "reachable s \<Longrightarrow> reachable (step a s)"
proof -
  assume "reachable s"
  then obtain acts where "s = run acts initial" by (auto simp: reachable_def)
  then have "step a s = run (acts @ [a]) initial" by (simp add: run_def)
  then show ?thesis unfolding reachable_def by blast
qed


lemma call_resolved:
  "conn (cached s) = Some m \<Longrightarrow> connectToDatabase c s = s\<lparr>results := results s @ [(c, Inr m)]\<rparr>"
  by (simp add: connectToDatabase_def)

lemma call_idle:
  assumes "queue_inv s" "conn (cached s) = None" "promise (cached s) = None"
  shows "connectToDatabase c s =
     s\<lparr>cached := (cached s)\<lparr>promise := Some (connects s)\<rparr>, connects := Suc (connects s),
       awaiting := awaiting s @ [(c, connects s)]\<rparr>"
proof -
  from assms(1) have "outcome s (connects s) = None" by (simp add: queue_inv_def)
  with assms(2,3) show ?thesis by (simp add: connectToDatabase_def await_def start_attempt_def)
qed

lemma call_in_flight:
  assumes "conn (cached s) = None" "promise (cached s) = Some p" "outcome s p = None"
  shows "connectToDatabase c s = s\<lparr>awaiting := awaiting s @ [(c, p)]\<rparr>"
  using assms by (simp add: connectToDatabase_def await_def)

lemma call_settled:
  assumes "conn (cached s) = None" "promise (cached s) = Some p" "outcome s p = Some r"
  shows "connectToDatabase c s = s\<lparr>jobs := jobs s @ [(c, p)]\<rparr>"
  using assms by (simp add: connectToDatabase_def await_def)

lemma settle_pending:
  "pending s p \<Longrightarrow> settle p r s =
     s\<lparr>outcome := (outcome s)(p := Some r),
       awaiting := filter (\<lambda>w. snd w \<noteq> p) (awaiting s),
       jobs := jobs s @ filter (\<lambda>w. snd w = p) (awaiting s)\<rparr>"
  by (simp add: settle_def)

lemma settle_not_pending: "\<not> pending s p \<Longrightarrow> settle p r s = s"
  by (simp add: settle_def)

lemma settle_cached: "cached (settle p r s) = cached s"
  by (simp add: settle_def)

lemma continue_rejected:
  assumes "jobs s = (c, p) # js" "outcome s p = Some (Inl e)"
  shows "continue s =
     s\<lparr>jobs := js, cached := (cached s)\<lparr>promise := None\<rparr>, results := results s @ [(c, Inl e)]\<rparr>"
  using assms by (simp add: continue_def resume_def)

lemma continue_fulfilled:
  assumes "jobs s = (c, p) # js" "outcome s p = Some (Inr m)"
  shows "continue s =
     s\<lparr>jobs := js, cached := (cached s)\<lparr>conn := Some m\<rparr>, results := results s @ [(c, Inr m)]\<rparr>"
  using assms by (simp add: continue_def resume_def)

lemma resolved_step: "conn (cached s) \<noteq> None \<Longrightarrow> conn (cached (step a s)) \<noteq> None"
  by (cases a)
    (auto simp: connectToDatabase_def settle_def continue_def resume_def
      split: list.splits option.splits sum.splits)

lemma resolved_step_connects:
  "conn (cached s) \<noteq> None \<Longrightarrow> connects (step a s) = connects s"
  by (cases a)
    (auto simp: connectToDatabase_def settle_def continue_def resume_def
      split: list.splits option.splits sum.splits)

lemma resolved_run:
  "conn (cached s) \<noteq> None \<Longrightarrow>
   conn (cached (run acts s)) \<noteq> None \<and> connects (run acts s) = connects s"
proof (induction acts arbitrary: s)
  case Nil
  then show ?case by (simp add: run_def)
next
  case (Cons a acts)
  from Cons.prems have "conn (cached (step a s)) \<noteq> None" by (rule resolved_step)
  from Cons.IH [OF this] resolved_step_connects [OF Cons.prems, of a]
  show ?case by (simp add: run_def)
qed

lemma first_callers:
  "cs \<noteq> [] \<Longrightarrow> run (map Call cs) initial =
     initial\<lparr>cached := \<lparr>conn = None, promise = Some 0\<rparr>, connects := 1,
       awaiting := map (\<lambda>c. (c, 0)) cs\<rparr>"
proof (induction cs rule: rev_induct)
  case Nil
  then show ?case by simp
next
  case (snoc c cs)
  show ?case
  proof (cases "cs = []")
    case True
    then show ?thesis
      by (simp add: run_def initial_def connectToDatabase_def await_def start_attempt_def)
  next
    case False
    let ?s = "run (map Call cs) initial"
    have s: "?s = initial\<lparr>cached := \<lparr>conn = None, promise = Some 0\<rparr>, connects := 1,
       awaiting := map (\<lambda>c. (c, 0)) cs\<rparr>" using snoc False by simp
    have "conn (cached ?s) = None" "promise (cached ?s) = Some 0" "outcome ?s 0 = None"
      unfolding s by (simp_all add: initial_def)
    then have "connectToDatabase c ?s = ?s\<lparr>awaiting := awaiting ?s @ [(c, 0)]\<rparr>"
      by (rule call_in_flight)
    moreover have "run (map Call (cs @ [c])) initial = connectToDatabase c ?s"
      by (simp add: run_def)
    ultimately show ?thesis by (simp add: s)
  qed
qed

text \<open>
  Claim C7. Rejecting the promise of an attempt sets neither slot: it records the failure
  and queues the continuation of every caller that awaits the attempt. When the continuation
  of such a caller runs, the caller receives the failure, the resolved-connection slot stays as
  it was, and an in-flight slot that still holds the failed attempt is cleared; if no
  connection is resolved, the call made next starts a fresh attempt, which it awaits.
\<close>

theorem connection_failure_resets:
  "(pending s p \<longrightarrow>
      cached (settle p (Inl e) s) = cached s \<and>
      outcome (settle p (Inl e) s) p = Some (Inl e) \<and>
      jobs (settle p (Inl e) s) = jobs s @ filter (\<lambda>w. snd w = p) (awaiting s)) \<and>
   (jobs s = (c, p) # js \<and> outcome s p = Some (Inl e) \<longrightarrow>
      results (step Continue s) = results s @ [(c, Inl e)] \<and>
      jobs (step Continue s) = js \<and>
      conn (cached (step Continue s)) = conn (cached s) \<and>
      (promise (cached s) = Some p \<longrightarrow> promise (cached (step Continue s)) = None) \<and>
      (reachable s \<and> promise (cached s) = Some p \<and> conn (cached s) = None \<longrightarrow>
         (\<forall>c'. connects (step (Call c') (step Continue s)) = Suc (connects s) \<and>
               promise (cached (step (Call c') (step Continue s))) = Some (connects s) \<and>
               pending (step (Call c') (step Continue s)) (connects s) \<and>
               awaiting (step (Call c') (step Continue s)) = awaiting s @ [(c', connects s)])))"
proof (intro conjI impI)
  assume "pending s p"
  then show "cached (settle p (Inl e) s) = cached s" by (simp add: settle_pending)
next
  assume "pending s p"
  then show "outcome (settle p (Inl e) s) p = Some (Inl e)" by (simp add: settle_pending)
next
  assume "pending s p"
  then show "jobs (settle p (Inl e) s) = jobs s @ filter (\<lambda>w. snd w = p) (awaiting s)"
    by (simp add: settle_pending)
next
  assume "jobs s = (c, p) # js \<and> outcome s p = Some (Inl e)"
  then show "results (step Continue s) = results s @ [(c, Inl e)]"
    by (simp add: continue_rejected)
next
  assume "jobs s = (c, p) # js \<and> outcome s p = Some (Inl e)"
  then show "jobs (step Continue s) = js" by (simp add: continue_rejected)
next
  assume "jobs s = (c, p) # js \<and> outcome s p = Some (Inl e)"
  then show "conn (cached (step Continue s)) = conn (cached s)" by (simp add: continue_rejected)
next
  assume "jobs s = (c, p) # js \<and> outcome s p = Some (Inl e)"
  then show "promise (cached (step Continue s)) = None" by (simp add: continue_rejected)
next
  assume j: "jobs s = (c, p) # js \<and> outcome s p = Some (Inl e)"
    and r: "reachable s \<and> promise (cached s) = Some p \<and> conn (cached s) = None"
  let ?s = "step Continue s"
  from j have eq: "continue s = s\<lparr>jobs := js, cached := (cached s)\<lparr>promise := None\<rparr>,
      results := results s @ [(c, Inl e)]\<rparr>"
    by (simp add: continue_rejected)
  from r have "reachable ?s" by (blast intro: reachable_step)
  then have inv: "queue_inv ?s" by (rule reachable_inv)
  from r have c0: "conn (cached ?s) = None" and p0: "promise (cached ?s) = None"
    by (simp_all add: eq)
  from inv have fresh: "outcome s (connects s) = None" by (simp add: queue_inv_def eq)
  show "\<forall>c'. connects (step (Call c') ?s) = Suc (connects s) \<and>
               promise (cached (step (Call c') ?s)) = Some (connects s) \<and>
               pending (step (Call c') ?s) (connects s) \<and>
               awaiting (step (Call c') ?s) = awaiting s @ [(c', connects s)]"
  proof
    fix c'
    have "step (Call c') ?s = ?s\<lparr>cached := (cached ?s)\<lparr>promise := Some (connects ?s)\<rparr>,
        connects := Suc (connects ?s), awaiting := awaiting ?s @ [(c', connects ?s)]\<rparr>"
      using call_idle [OF inv c0 p0, of c'] by simp
    then show "connects (step (Call c') ?s) = Suc (connects s) \<and>
               promise (cached (step (Call c') ?s)) = Some (connects s) \<and>
               pending (step (Call c') ?s) (connects s) \<and>
               awaiting (step (Call c') ?s) = awaiting s @ [(c', connects s)]"
      using fresh by (simp add: eq pending_def)
  qed
qed

theorem connection_failure_resets_witness:
  "pending (run [Call 10, Call 20] initial) 0 \<and>
   jobs (settle 0 (Inl ''unreachable'') (run [Call 10, Call 20] initial)) = [(10, 0), (20, 0)] \<and>
   reachable (run [Call 10, Call 20, Settle 0 (Inl ''unreachable'')] initial) \<and>
   jobs (run [Call 10, Call 20, Settle 0 (Inl ''unreachable'')] initial) = [(10, 0), (20, 0)] \<and>
   outcome (run [Call 10, Call 20, Settle 0 (Inl ''unreachable'')] initial) 0 = Some (Inl ''unreachable'') \<and>
   cached (run [Call 10, Call 20, Settle 0 (Inl ''unreachable'')] initial) =
     \<lparr>conn = None, promise = Some 0\<rparr> \<and>
   results (step Continue (run [Call 10, Call 20, Settle 0 (Inl ''unreachable'')] initial)) =
     [(10, Inl ''unreachable'')] \<and>
   cached (step Continue (run [Call 10, Call 20, Settle 0 (Inl ''unreachable'')] initial)) =
     \<lparr>conn = None, promise = None\<rparr> \<and>
   connects (step (Call 30)
     (step Continue (run [Call 10, Call 20, Settle 0 (Inl ''unreachable'')] initial))) = 2 \<and>
   promise (cached (step (Call 30)
     (step Continue (run [Call 10, Call 20, Settle 0 (Inl ''unreachable'')] initial)))) = Some 1"
proof -
  let ?s = "run [Call 10, Call 20] initial"
  let ?t = "run [Call 10, Call 20, Settle 0 (Inl ''unreachable'')] initial"
  have s: "?s = initial\<lparr>cached := \<lparr>conn = None, promise = Some 0\<rparr>, connects := 1,
       awaiting := map (\<lambda>c. (c, 0)) [10, 20]\<rparr>"
    using first_callers [of "[10, 20]"] by simp
  have p: "pending ?s 0" unfolding s by (simp add: pending_def initial_def)
  have a: "awaiting ?s = [(10, 0), (20, 0)]" "jobs ?s = []" unfolding s by (simp_all add: initial_def)
  have t: "?t = settle 0 (Inl ''unreachable'') ?s" by (simp add: run_def)
  have r: "reachable ?t" by (rule reachable_run)
  have j: "jobs ?t = [(10, 0), (20, 0)]" "outcome ?t 0 = Some (Inl ''unreachable'')"
    "promise (cached ?t) = Some 0" "conn (cached ?t) = None" "results ?t = []" "connects ?t = 1"
    by code_simp+
  from connection_failure_resets [of ?s 0 "''unreachable''"] p a
  have one: "jobs (settle 0 (Inl ''unreachable'') ?s) = [(10, 0), (20, 0)]" by simp
  from connection_failure_resets [of ?t 0 "''unreachable''" 10 "[(20, 0)]"] r j
  have two: "results (step Continue ?t) = [(10, Inl ''unreachable'')]"
    "conn (cached (step Continue ?t)) = None"
    "promise (cached (step Continue ?t)) = None"
    "connects (step (Call 30) (step Continue ?t)) = 2"
    "promise (cached (step (Call 30) (step Continue ?t))) = Some 1"
    by simp_all
  have c: "cached ?t = \<lparr>conn = None, promise = Some 0\<rparr>" using j(3,4) by (cases "cached ?t") simp
  have c': "cached (step Continue ?t) = \<lparr>conn = None, promise = None\<rparr>"
    using two(2,3) by (cases "cached (step Continue ?t)") simp
  from p one r j(1,2) c two(1) c' two(4,5) show ?thesis by (intro conjI)
qed

text \<open>
  A call made after the rejection and before the continuation of the awaiting caller finds
  the failed attempt still in the slot: it starts no attempt and awaits the failed one, whose
  failure it receives. One \<^verbatim>\<open>mongoose.connect\<close> was called in all.
\<close>

theorem connection_stale_failure_counterexample:
  "promise (cached (run [Call 10, Settle 0 (Inl ''unreachable''), Call 30] initial)) = Some 0 \<and>
   connects (run [Call 10, Settle 0 (Inl ''unreachable''), Call 30] initial) = 1 \<and>
   jobs (run [Call 10, Settle 0 (Inl ''unreachable''), Call 30] initial) = [(10, 0), (30, 0)] \<and>
   results (run [Call 10, Settle 0 (Inl ''unreachable''), Call 30, Continue, Continue] initial) =
     [(10, Inl ''unreachable''), (30, Inl ''unreachable'')] \<and>
   connects (run [Call 10, Settle 0 (Inl ''unreachable''), Call 30, Continue, Continue] initial) = 1"
  by code_simp

text \<open>
  Claim C8. The \<^verbatim>\<open>catch\<close> clears the in-flight slot whatever the slot holds. A caller that
  joined a failed attempt before the slot was cleared (20) resumes after a later caller (30)
  has started the next attempt, and clears the slot of that attempt while it is in flight; the
  caller after it (40) then starts an attempt of its own. Attempts 1 and 2 are pending
  together, and the concurrent callers 30 and 40 await different attempts.
\<close>

theorem connection_duplicate_attempts:
  "connects (run [Call 10, Settle 0 (Inl ''unreachable''), Call 20, Continue, Call 30, Continue,
      Call 40] initial) = 3 \<and>
   pending (run [Call 10, Settle 0 (Inl ''unreachable''), Call 20, Continue, Call 30, Continue,
      Call 40] initial) 1 \<and>
   pending (run [Call 10, Settle 0 (Inl ''unreachable''), Call 20, Continue, Call 30, Continue,
      Call 40] initial) 2 \<and>
   awaiting (run [Call 10, Settle 0 (Inl ''unreachable''), Call 20, Continue, Call 30, Continue,
      Call 40] initial) = [(30, 1), (40, 2)] \<and>
   results (run [Call 10, Settle 0 (Inl ''unreachable''), Call 20, Continue, Call 30, Continue,
      Call 40] initial) = [(10, Inl ''unreachable''), (20, Inl ''unreachable'')]"
  by code_simp

end
